theory Spec2Isabelle
  imports Main "HOL-Library.Sublist"
begin

section \<open>Python strings and the control sequences of the wrapper\<close>

text \<open>
  A Python \<open>str\<close> is a sequence of Unicode code points, so the model uses lists of
  natural numbers: \<open>length\<close> counts what \<open>len\<close> counts, and the selection marker
  U+276F is one element. ASCII literals are written through \<open>u\<close>.
\<close>

type_synonym ustr = "nat list"

definition u :: "string \<Rightarrow> ustr" where
  "u s = map of_char s"

abbreviation (input) ESC :: nat where "ESC \<equiv> 27"
abbreviation (input) BEL :: nat where "BEL \<equiv> 7"
abbreviation (input) LF :: nat where "LF \<equiv> 10"
abbreviation (input) CR :: nat where "CR \<equiv> 13"

text \<open>\<open>str(n)\<close> of a Python int, as an f-string prints it.\<close>

fun digits :: "nat \<Rightarrow> ustr" where
  "digits n = (if n < 10 then [48 + n] else digits (n div 10) @ [48 + n mod 10])"

declare digits.simps [simp del]

definition str_of_int :: "int \<Rightarrow> ustr" where
  "str_of_int i = (if i < 0 then 45 # digits (nat (- i)) else digits (nat i))"

text \<open>\<open>sep.join(xs)\<close>\<close>

fun join :: "ustr \<Rightarrow> ustr list \<Rightarrow> ustr" where
  "join sep [] = []"
| "join sep [x] = x"
| "join sep (x # y # ys) = x @ sep @ join sep (y # ys)"

text \<open>\<open>sub in s\<close> for strings.\<close>

fun str_in :: "ustr \<Rightarrow> ustr \<Rightarrow> bool" where
  "str_in sub [] = (sub = [])"
| "str_in sub (c # cs) = (prefix sub (c # cs) \<or> str_in sub cs)"

text \<open>The sequences the wrapper writes to the real terminal (\<open>claude_pty.py\<close>).\<close>

definition set_scroll_region :: "int \<Rightarrow> ustr" where
  \<comment> \<open>\<open>f"\x1b[1;{n}r"\<close>\<close>
  "set_scroll_region n = ESC # u ''[1;'' @ str_of_int n @ u ''r''"

definition move_to_line :: "int \<Rightarrow> ustr" where
  \<comment> \<open>\<open>f"\x1b[{line};1H"\<close>\<close>
  "move_to_line line = ESC # u ''['' @ str_of_int line @ u '';1H''"

definition save_cursor :: ustr where "save_cursor = ESC # u ''[s''"
definition restore_cursor :: ustr where "restore_cursor = ESC # u ''[u''"
definition clear_line :: ustr where "clear_line = ESC # u ''[2K''"
definition reset_scroll_region :: ustr where "reset_scroll_region = ESC # u ''[r''"
definition clear_screen :: ustr where "clear_screen = ESC # u ''[2J''"
definition cursor_home :: ustr where "cursor_home = ESC # u ''[H''"
definition black_on_white :: ustr where "black_on_white = ESC # u ''[30;47m''"
definition bright_white :: ustr where "bright_white = ESC # u ''[97m''"
definition reset_format :: ustr where "reset_format = ESC # u ''[0m''"

section \<open>The Python runtime: character classes and regular expressions\<close>

text \<open>
  \<open>str.isalpha\<close>, \<open>str.lower\<close>, the classes \<open>\s\<close>, \<open>\d\<close>, \<open>\w\<close> of \<open>re\<close> and its
  \<open>IGNORECASE\<close> matching are Unicode-aware. On ASCII they are written out below; beyond
  ASCII they follow the interpreter's Unicode tables, which are taken as a parameter, as
  is the UTF-8 decoder with \<open>errors="ignore"\<close>. Every result holds for all tables.
\<close>

record pyrt =
  isalpha_nonascii :: "nat \<Rightarrow> bool"
  isspace_nonascii :: "nat \<Rightarrow> bool"
  isdecimal_nonascii :: "nat \<Rightarrow> bool"
  isalnum_nonascii :: "nat \<Rightarrow> bool"
  ignorecase_nonascii :: "nat \<Rightarrow> nat \<Rightarrow> bool"
  lower_nonascii :: "ustr \<Rightarrow> ustr"
  decode_utf8_ignore :: "nat list \<Rightarrow> ustr"

definition ascii_letter :: "nat \<Rightarrow> bool" where
  "ascii_letter c \<longleftrightarrow> (97 \<le> c \<and> c \<le> 122) \<or> (65 \<le> c \<and> c \<le> 90)"

definition ascii_digit :: "nat \<Rightarrow> bool" where
  "ascii_digit c \<longleftrightarrow> 48 \<le> c \<and> c \<le> 57"

definition ascii_lower :: "nat \<Rightarrow> nat" where
  "ascii_lower c = (if 65 \<le> c \<and> c \<le> 90 then c + 32 else c)"

definition isalpha :: "pyrt \<Rightarrow> nat \<Rightarrow> bool" where
  "isalpha R c = (if c < 128 then ascii_letter c else isalpha_nonascii R c)"

definition isspace :: "pyrt \<Rightarrow> nat \<Rightarrow> bool" where
  \<comment> \<open>\<open>\s\<close>: in ASCII, tab to carriage return, the separators 28 to 31, and space\<close>
  "isspace R c =
     (if c < 128 then (9 \<le> c \<and> c \<le> 13) \<or> (28 \<le> c \<and> c \<le> 31) \<or> c = 32
      else isspace_nonascii R c)"

definition isdecimal :: "pyrt \<Rightarrow> nat \<Rightarrow> bool" where
  \<comment> \<open>\<open>\d\<close>\<close>
  "isdecimal R c = (if c < 128 then ascii_digit c else isdecimal_nonascii R c)"

definition isword :: "pyrt \<Rightarrow> nat \<Rightarrow> bool" where
  \<comment> \<open>\<open>\w\<close>\<close>
  "isword R c =
     (if c < 128 then ascii_letter c \<or> ascii_digit c \<or> c = 95 else isalnum_nonascii R c)"

definition lower :: "pyrt \<Rightarrow> ustr \<Rightarrow> ustr" where
  \<comment> \<open>\<open>s.lower()\<close>\<close>
  "lower R s = (if list_all (\<lambda>c. c < 128) s then map ascii_lower s else lower_nonascii R s)"

text \<open>
  The fragment of \<open>re\<close> the wrapper's patterns use. A position is the rest of the text
  and the character before it, which \<open>^\<close> and \<open>\b\<close> look at. \<open>rmatch\<close> lists the
  positions at which a match of the pattern starting here can end, in the order in which
  the backtracking matcher tries them (a greedy star first iterates, an alternation first
  takes its left branch): the head of the list is the match \<open>re\<close> reports, and the list is
  empty exactly when there is none. A star iterates only over matches of its body that
  consume a character.
\<close>

datatype re = Eps | Cls "nat \<Rightarrow> bool" | Seq re re | Alt re re | Star re | Bol | WordB

type_synonym pos = "nat option \<times> ustr"

definition at_boundary :: "(nat \<Rightarrow> bool) \<Rightarrow> pos \<Rightarrow> bool" where
  "at_boundary W p =
     ((case fst p of None \<Rightarrow> False | Some c \<Rightarrow> W c)
      \<noteq> (case snd p of [] \<Rightarrow> False | c # _ \<Rightarrow> W c))"

function rmatch :: "(nat \<Rightarrow> bool) \<Rightarrow> re \<Rightarrow> pos \<Rightarrow> pos list" where
  "rmatch W Eps p = [p]"
| "rmatch W (Cls P) p =
     (case snd p of [] \<Rightarrow> [] | c # cs \<Rightarrow> if P c then [(Some c, cs)] else [])"
| "rmatch W (Seq r1 r2) p = concat (map (rmatch W r2) (rmatch W r1 p))"
| "rmatch W (Alt r1 r2) p = rmatch W r1 p @ rmatch W r2 p"
| "rmatch W (Star r) p =
     concat (map (rmatch W (Star r))
                 (filter (\<lambda>q. length (snd q) < length (snd p)) (rmatch W r p))) @ [p]"
| "rmatch W Bol p = (if fst p = None \<or> fst p = Some LF then [p] else [])"
| "rmatch W WordB p = (if at_boundary W p then [p] else [])"
  by pat_completeness auto
termination
  by (relation "inv_image (less_than <*lex*> less_than) (\<lambda>(W, r, p). (size r, length (snd p)))")
     auto

definition lit :: "nat \<Rightarrow> re" where
  "lit c = Cls (\<lambda>x. x = c)"

definition ilit :: "pyrt \<Rightarrow> nat \<Rightarrow> re" where
  \<comment> \<open>a lower-case ASCII letter of a pattern compiled with \<open>IGNORECASE\<close>\<close>
  "ilit R c = Cls (\<lambda>x. if x < 128 then ascii_lower x = c else ignorecase_nonascii R c x)"

fun str_re :: "ustr \<Rightarrow> re" where
  "str_re [] = Eps"
| "str_re (c # cs) = Seq (lit c) (str_re cs)"

fun istr_re :: "pyrt \<Rightarrow> ustr \<Rightarrow> re" where
  "istr_re R [] = Eps"
| "istr_re R (c # cs) = Seq (ilit R c) (istr_re R cs)"

definition plus :: "re \<Rightarrow> re" where
  "plus r = Seq r (Star r)"

fun alts :: "re list \<Rightarrow> re" where
  "alts [] = Cls (\<lambda>_. False)"
| "alts [r] = r"
| "alts (r # rs) = Alt r (alts rs)"

text \<open>\<open>re.search(pattern, text)\<close> as a truth value: is there a match at some position?\<close>

fun re_search_from :: "(nat \<Rightarrow> bool) \<Rightarrow> re \<Rightarrow> nat option \<Rightarrow> ustr \<Rightarrow> bool" where
  "re_search_from W r b [] = (rmatch W r (b, []) \<noteq> [])"
| "re_search_from W r b (c # cs) =
     (rmatch W r (b, c # cs) \<noteq> [] \<or> re_search_from W r (Some c) cs)"

definition re_search :: "(nat \<Rightarrow> bool) \<Rightarrow> re \<Rightarrow> ustr \<Rightarrow> bool" where
  "re_search W r s = re_search_from W r None s"

text \<open>
  \<open>re.sub(pattern, '', text)\<close>: scanning from the left, a match is dropped and the scan
  goes on behind it; where there is none (or only an empty one) the character is kept.
\<close>

function re_delete_from :: "(nat \<Rightarrow> bool) \<Rightarrow> re \<Rightarrow> nat option \<Rightarrow> ustr \<Rightarrow> ustr" where
  "re_delete_from W r b s =
     (case rmatch W r (b, s) of
        [] \<Rightarrow> (case s of [] \<Rightarrow> [] | c # cs \<Rightarrow> c # re_delete_from W r (Some c) cs)
      | q # _ \<Rightarrow>
          if length (snd q) < length s then re_delete_from W r (fst q) (snd q)
          else (case s of [] \<Rightarrow> [] | c # cs \<Rightarrow> c # re_delete_from W r (Some c) cs))"
  by pat_completeness auto
termination
  by (relation "measure (\<lambda>(W, r, b, s). length s)") auto

declare re_delete_from.simps [simp del]

definition re_delete :: "(nat \<Rightarrow> bool) \<Rightarrow> re \<Rightarrow> ustr \<Rightarrow> ustr" where
  "re_delete W r s = re_delete_from W r None s"

text \<open>The patterns of \<open>claude_pty.py\<close>.\<close>

definition csi_re :: re where
  \<comment> \<open>\<open>\x1b\[[0-9;]*[a-zA-Z]\<close>\<close>
  "csi_re = Seq (lit ESC) (Seq (lit 91)
     (Seq (Star (Cls (\<lambda>c. ascii_digit c \<or> c = 59))) (Cls ascii_letter)))"

definition osc_re :: re where
  \<comment> \<open>\<open>\x1b\][^\x07]*\x07\<close>\<close>
  "osc_re = Seq (lit ESC) (Seq (lit 93) (Seq (Star (Cls (\<lambda>c. c \<noteq> BEL))) (lit BEL)))"

definition da_pattern :: re where
  \<comment> \<open>\<open>\x1b\[\?[0-9;]*c\<close>\<close>
  "da_pattern = Seq (lit ESC) (Seq (lit 91) (Seq (lit 63)
     (Seq (Star (Cls (\<lambda>c. ascii_digit c \<or> c = 59))) (lit 99))))"

definition yes_no_re :: re where
  \<comment> \<open>\<open>\[(?:y/n|Y/N|yes/no|Yes/No)\]\<close>\<close>
  "yes_no_re = Seq (lit 91)
     (Seq (alts [str_re (u ''y/n''), str_re (u ''Y/N''), str_re (u ''yes/no''),
                 str_re (u ''Yes/No'')])
          (lit 93))"

definition numbered_re :: "pyrt \<Rightarrow> re" where
  \<comment> \<open>\<open>(?m)^\s*\d+\.\s+\w+\<close>\<close>
  "numbered_re R = Seq Bol (Seq (Star (Cls (isspace R))) (Seq (plus (Cls (isdecimal R)))
     (Seq (lit 46) (Seq (plus (Cls (isspace R))) (plus (Cls (isword R)))))))"

definition decision_words :: "ustr list" where
  "decision_words = [u ''allow'', u ''deny'', u ''approve'', u ''reject'', u ''permission'',
     u ''permit'', u ''grant'', u ''refuse'']"

definition decision_re :: "pyrt \<Rightarrow> re" where
  \<comment> \<open>\<open>\b(allow|deny|approve|reject|permission|permit|grant|refuse)\b\<close> with \<open>IGNORECASE\<close>\<close>
  "decision_re R = Seq WordB (Seq (alts (map (istr_re R) decision_words)) WordB)"

section \<open>The session: class \<open>ClaudePTY\<close>\<close>

text \<open>
  The child behind the PTY is what the wrapper can do to it: the command it was spawned
  with, the data written to it (one entry per \<open>send\<close>/\<open>write\<close>/\<open>sendcontrol\<close>), its
  window size and whether its handle was closed or terminated.
\<close>

record child =
  cmdline :: "ustr list"
  sent :: "ustr list"
  winsize :: "int \<times> int"
  closed :: bool

text \<open>The mode of the real terminal's input: as found at start, or raw.\<close>

datatype tty_mode = Original | Raw

text \<open>
  The fields of \<open>ClaudePTY.__init__\<close>, and the part of the world the methods act on:
  everything written to \<open>sys.stdout\<close> (\<open>stdout\<close>) and the mode of \<open>sys.stdin\<close> (\<open>tty\<close>).
  The two reader threads are not fields of the model: their loop bodies are the step
  functions below. \<open>DEBUG_ESCAPES\<close> is the constant \<open>False\<close>, so \<open>_debug_file\<close> stays
  \<open>None\<close> and the logging branch of the tracker is dead.
\<close>

record ClaudePTY =
  process :: "child option"
  running :: bool
  old_tty_settings :: "tty_mode option"
  screen_buffer :: ustr
  term_lines :: int
  term_cols :: int
  esc_buffer :: ustr
  status_line1 :: ustr
  status_line2 :: ustr
  pty_lines :: int
  needs_status_redraw :: bool
  stdout :: ustr
  tty :: tty_mode

definition SCREEN_BUFFER_SIZE :: nat where "SCREEN_BUFFER_SIZE = 4000"
definition STATUS_BAR_LINES :: int where "STATUS_BAR_LINES = 2"

definition init :: "tty_mode \<Rightarrow> ustr \<Rightarrow> ClaudePTY" where
  \<comment> \<open>\<open>__init__\<close>, in a world whose terminal is in mode \<open>m\<close> and has shown \<open>out\<close>\<close>
  "init m out = \<lparr>process = None, running = False, old_tty_settings = None,
     screen_buffer = [], term_lines = 24, term_cols = 80, esc_buffer = [],
     status_line1 = [], status_line2 = [], pty_lines = 24,
     needs_status_redraw = False, stdout = out, tty = m\<rparr>"

datatype error = FileNotFoundError | SpawnError | OSError | ValueError | AttributeError

text \<open>
  What \<open>start\<close> finds in its environment: the size \<open>os.get_terminal_size()\<close> reports as
  (lines, columns), \<open>None\<close> when it raises \<open>OSError\<close>; the path \<open>shutil.which("claude")\<close>
  finds (Windows); whether spawning the child succeeds; whether \<open>termios.tcgetattr\<close> and
  \<open>tty.setraw\<close> succeed; and \<open>VOICE_CLAUDE_ORIGINAL_CWD\<close>, which only the spawned child
  sees.
\<close>

record start_env =
  env_term_size :: "(int \<times> int) option"
  env_which :: "ustr option"
  env_spawn_ok :: bool
  env_tcgetattr_ok :: bool
  env_setraw_ok :: bool

definition write_stdout :: "ustr \<Rightarrow> ClaudePTY \<Rightarrow> ClaudePTY" where
  "write_stdout d s = s\<lparr>stdout := stdout s @ d\<rparr>"

definition start_windows :: "start_env \<Rightarrow> ustr list \<Rightarrow> ClaudePTY \<Rightarrow> error + ClaudePTY" where
  "start_windows env args s =
     (case env_which env of
        None \<Rightarrow> Inl FileNotFoundError
      | Some claude_path \<Rightarrow>
          let quoted_args = map (\<lambda>arg. if 32 \<in> set arg then 34 # arg @ [34] else arg) args;
              cmd = (if args \<noteq> [] then claude_path @ [32] @ join [32] quoted_args
                     else claude_path)
          in if env_spawn_ok env
             then Inr (s\<lparr>process := Some \<lparr>cmdline = [cmd], sent = [],
                          winsize = (pty_lines s, term_cols s), closed = False\<rparr>\<rparr>)
             else Inl SpawnError)"

definition start_unix :: "start_env \<Rightarrow> ustr list \<Rightarrow> ClaudePTY \<Rightarrow> error + ClaudePTY" where
  "start_unix env args s =
     (let dimensions = (pty_lines s, term_cols s);
          s1 = write_stdout (set_scroll_region (pty_lines s)) s
      in if \<not> env_spawn_ok env then Inl SpawnError
         else
           let s2 = s1\<lparr>process := Some \<lparr>cmdline = u ''claude'' # args, sent = [],
                          winsize = dimensions, closed = False\<rparr>\<rparr>
           in if env_tcgetattr_ok env
              then (if env_setraw_ok env
                    then Inr (s2\<lparr>old_tty_settings := Some (tty s2), tty := Raw\<rparr>)
                    else Inr (s2\<lparr>old_tty_settings := None\<rparr>))
              else Inr (s2\<lparr>old_tty_settings := None\<rparr>))"

definition start :: "bool \<Rightarrow> start_env \<Rightarrow> ustr list \<Rightarrow> ClaudePTY \<Rightarrow> error + ClaudePTY" where
  \<comment> \<open>the first argument is \<open>IS_WINDOWS\<close>\<close>
  "start is_windows env args s =
     (let s1 = (case env_term_size env of
                  Some (lines, columns) \<Rightarrow> s\<lparr>term_lines := lines, term_cols := columns\<rparr>
                | None \<Rightarrow> s\<lparr>term_lines := 24, term_cols := 80\<rparr>);
          s2 = s1\<lparr>pty_lines := term_lines s1 - STATUS_BAR_LINES\<rparr>
      in case (if is_windows then start_windows env args s2 else start_unix env args s2) of
           Inl e \<Rightarrow> Inl e
         | Inr s3 \<Rightarrow> Inr (s3\<lparr>running := True\<rparr>))"

text \<open>
  \<open>_handle_resize\<close>, the \<open>SIGWINCH\<close> handler (Unix only). Its argument is what
  \<open>os.get_terminal_size()\<close> gives when the signal arrives. \<open>setwinsize\<close> on a child whose
  handle is closed raises \<open>OSError\<close>, which the handler swallows like the failed size
  query: the redraw flag is then not set.
\<close>

definition handle_resize :: "(int \<times> int) option \<Rightarrow> ClaudePTY \<Rightarrow> ClaudePTY" where
  "handle_resize sz s =
     (case sz of
        None \<Rightarrow> s
      | Some (lines, columns) \<Rightarrow>
          let old_pty_lines = pty_lines s;
              s1 = s\<lparr>term_lines := lines, term_cols := columns,
                     pty_lines := lines - STATUS_BAR_LINES\<rparr>;
              s2 = (if pty_lines s1 < old_pty_lines
                    then write_stdout
                           (save_cursor
                            @ concat (map (\<lambda>line. move_to_line line @ clear_line)
                                        [pty_lines s1 + 1 .. old_pty_lines])
                            @ restore_cursor) s1
                    else s1);
              s3 = write_stdout (set_scroll_region (pty_lines s2)) s2
          in case process s3 of
               None \<Rightarrow> s3\<lparr>needs_status_redraw := True\<rparr>
             | Some p \<Rightarrow>
                 if closed p then s3
                 else s3\<lparr>process := Some (p\<lparr>winsize := (pty_lines s3, term_cols s3)\<rparr>),
                         needs_status_redraw := True\<rparr>)"

text \<open>A run of resize events, each with the size the terminal reports at that moment.\<close>

fun resizes :: "(int \<times> int) option list \<Rightarrow> ClaudePTY \<Rightarrow> ClaudePTY" where
  "resizes [] s = s"
| "resizes (sz # sizes) s = resizes sizes (handle_resize sz s)"


section \<open>Output relay, escape tracker and overlay\<close>

text \<open>
  A method that can raise returns \<open>Inl (e, s)\<close>, the exception and the session as the
  statements before the raise left it, or \<open>Inr s\<close>.
\<close>

type_synonym outcome = "(error \<times> ClaudePTY) + ClaudePTY"

definition and_then :: "outcome \<Rightarrow> (ClaudePTY \<Rightarrow> outcome) \<Rightarrow> outcome" where
  "and_then r f = (case r of Inl e \<Rightarrow> Inl e | Inr s \<Rightarrow> f s)"

definition padded :: "int \<Rightarrow> ustr \<Rightarrow> ustr" where
  \<comment> \<open>\<open>f" {line:<{cols - 1}}"[:cols]\<close> for a width \<open>cols - 1\<close> that is not negative\<close>
  "padded cols line = take (nat cols) (32 # line @ replicate (nat (cols - 1) - length line) 32)"

definition status_text :: "int \<Rightarrow> ustr \<Rightarrow> error + ustr" where
  \<comment> \<open>a negative width is not a format specifier: \<open>ValueError\<close>\<close>
  "status_text cols line = (if cols - 1 < 0 then Inl ValueError else Inr (padded cols line))"

definition draw_status_bar :: "ustr \<Rightarrow> ustr \<Rightarrow> ClaudePTY \<Rightarrow> outcome" where
  "draw_status_bar line1 line2 s =
     (if \<not> running s then Inr s
      else
        let s1 = s\<lparr>status_line1 := line1, status_line2 := line2\<rparr>;
            row1 = term_lines s1 - 1;
            row2 = term_lines s1
        in case status_text (term_cols s1) line1 of
             Inl e \<Rightarrow> Inl (e, s1)
           | Inr text1 \<Rightarrow>
               (case status_text (term_cols s1) line2 of
                  Inl e \<Rightarrow> Inl (e, s1)
                | Inr text2 \<Rightarrow>
                    Inr (write_stdout
                           (save_cursor
                            @ move_to_line row1 @ clear_line @ black_on_white @ text1
                            @ reset_format
                            @ move_to_line row2 @ clear_line @ bright_white @ text2
                            @ reset_format
                            @ restore_cursor) s1)))"

definition restore_status_bar :: "ClaudePTY \<Rightarrow> outcome" where
  "restore_status_bar s =
     (let s1 = write_stdout (set_scroll_region (pty_lines s)) s
      in if status_line1 s1 \<noteq> [] then draw_status_bar (status_line1 s1) (status_line2 s1) s1
         else Inr s1)"

definition track_escape_sequence :: "pyrt \<Rightarrow> nat \<Rightarrow> ClaudePTY \<Rightarrow> outcome" where
  "track_escape_sequence R char s =
     (if char = ESC then Inr (s\<lparr>esc_buffer := [char]\<rparr>)
      else if esc_buffer s \<noteq> [] then
        let s1 = s\<lparr>esc_buffer := esc_buffer s @ [char]\<rparr>
        in if isalpha R char \<or> char = 126 then
             let seq = esc_buffer s1
             in and_then (if seq = ESC # u ''[r'' then restore_status_bar s1 else Inr s1)
                  (\<lambda>s2. Inr (s2\<lparr>esc_buffer := []\<rparr>))
           else if length (esc_buffer s1) > 20 then Inr (s1\<lparr>esc_buffer := []\<rparr>)
           else Inr s1
      else Inr s)"

definition append_screen_buffer :: "ustr \<Rightarrow> ClaudePTY \<Rightarrow> ClaudePTY" where
  \<comment> \<open>\<open>_screen_buffer += data\<close>, then keep \<open>[-SCREEN_BUFFER_SIZE:]\<close> if too long\<close>
  "append_screen_buffer data s =
     (let b = screen_buffer s @ data
      in if length b > SCREEN_BUFFER_SIZE
         then s\<lparr>screen_buffer := drop (length b - SCREEN_BUFFER_SIZE) b\<rparr>
         else s\<lparr>screen_buffer := b\<rparr>)"

definition restore_terminal :: "bool \<Rightarrow> bool \<Rightarrow> ClaudePTY \<Rightarrow> ClaudePTY" where
  \<comment> \<open>arguments: \<open>IS_WINDOWS\<close>, and whether \<open>termios.tcsetattr\<close> succeeds\<close>
  "restore_terminal is_windows tcsetattr_ok s =
     (if is_windows then s
      else
        let s1 = (case old_tty_settings s of
                    None \<Rightarrow> s
                  | Some settings \<Rightarrow>
                      if tcsetattr_ok then s\<lparr>tty := settings, old_tty_settings := None\<rparr>
                      else s)
        in write_stdout cursor_home
             (write_stdout clear_screen (write_stdout reset_scroll_region s1)))"

text \<open>
  What one pass of the Unix output loop reads: a character, a timeout, end of file, or
  any other exception of \<open>read_nonblocking\<close>. The step returns whether the loop goes on.
  An exception raised while the timeout handler draws leaves the loop without passing
  through the other handlers.
\<close>

datatype read_event = ReadChar nat | Timeout | Eof | ReadError

definition read_output_unix_step ::
  "pyrt \<Rightarrow> bool \<Rightarrow> read_event \<Rightarrow> ClaudePTY \<Rightarrow> bool \<times> ClaudePTY" where
  "read_output_unix_step R tcsetattr_ok ev s =
     (case ev of
        ReadChar char \<Rightarrow>
          (case track_escape_sequence R char (write_stdout [char] s) of
             Inl (e, s1) \<Rightarrow> (False, restore_terminal False tcsetattr_ok s1)
           | Inr s1 \<Rightarrow> (True, append_screen_buffer [char] s1))
      | Timeout \<Rightarrow>
          if needs_status_redraw s \<and> status_line1 s \<noteq> [] then
            (case draw_status_bar (status_line1 s) (status_line2 s)
                    (s\<lparr>needs_status_redraw := False\<rparr>) of
               Inl (e, s1) \<Rightarrow> (False, s1)
             | Inr s1 \<Rightarrow> (True, s1))
          else (True, s)
      | Eof \<Rightarrow> (False, restore_terminal False tcsetattr_ok (s\<lparr>running := False\<rparr>))
      | ReadError \<Rightarrow> (False, restore_terminal False tcsetattr_ok s))"

fun read_output_unix :: "pyrt \<Rightarrow> bool \<Rightarrow> read_event list \<Rightarrow> ClaudePTY \<Rightarrow> ClaudePTY" where
  "read_output_unix R tc [] s = s"
| "read_output_unix R tc (ev # evs) s =
     (if running s \<and> process s \<noteq> None then
        (case read_output_unix_step R tc ev s of
           (True, s1) \<Rightarrow> read_output_unix R tc evs s1
         | (False, s1) \<Rightarrow> s1)
      else s)"

text \<open>
  One pass of the Windows output loop: the child is found dead, data is read (possibly
  none), or \<open>read\<close> raises.
\<close>

datatype win_event = WDead | WData ustr | WEOFError | WError

definition read_output_windows_step ::
  "pyrt \<Rightarrow> win_event \<Rightarrow> ClaudePTY \<Rightarrow> bool \<times> ClaudePTY" where
  "read_output_windows_step R ev s =
     (case ev of
        WDead \<Rightarrow> (False, s\<lparr>running := False\<rparr>)
      | WData data0 \<Rightarrow>
          if data0 \<noteq> [] then
            let data = re_delete (isword R) da_pattern data0
            in if data \<noteq> [] then (True, append_screen_buffer data (write_stdout data s))
               else (True, s)
          else (True, s)
      | WEOFError \<Rightarrow> (False, s\<lparr>running := False\<rparr>)
      | WError \<Rightarrow> (False, s\<lparr>running := False\<rparr>))"

fun read_output_windows :: "pyrt \<Rightarrow> win_event list \<Rightarrow> ClaudePTY \<Rightarrow> ClaudePTY" where
  "read_output_windows R [] s = s"
| "read_output_windows R (ev # evs) s =
     (if running s \<and> process s \<noteq> None then
        (case read_output_windows_step R ev s of
           (True, s1) \<Rightarrow> read_output_windows R evs s1
         | (False, s1) \<Rightarrow> s1)
      else s)"

section \<open>Writing to the child\<close>

definition child_send :: "ustr \<Rightarrow> ClaudePTY \<Rightarrow> outcome" where
  \<comment> \<open>\<open>self.process.send(data)\<close> / \<open>write(data)\<close>: fails on no handle or a closed one\<close>
  "child_send data s =
     (case process s of
        None \<Rightarrow> Inl (AttributeError, s)
      | Some p \<Rightarrow>
          if closed p then Inl (OSError, s)
          else Inr (s\<lparr>process := Some (p\<lparr>sent := sent p @ [data]\<rparr>)\<rparr>))"

definition send :: "bool \<Rightarrow> ustr \<Rightarrow> ClaudePTY \<Rightarrow> outcome" where
  "send is_windows text s =
     (if process s = None \<or> \<not> running s then Inr s
      else and_then (child_send text s) (child_send [CR]))"

definition key_map :: "(ustr \<times> ustr) list" where
  "key_map =
     [(u ''enter'', [CR]), (u ''return'', [CR]), (u ''escape'', [ESC]), (u ''esc'', [ESC]),
      (u ''up'', ESC # u ''[A''), (u ''down'', ESC # u ''[B''), (u ''right'', ESC # u ''[C''),
      (u ''left'', ESC # u ''[D''), (u ''tab'', [9]), (u ''shift+tab'', ESC # u ''[Z''),
      (u ''backtab'', ESC # u ''[Z''), (u ''backspace'', [127]), (u ''delete'', ESC # u ''[3~''),
      (u ''home'', ESC # u ''[H''), (u ''end'', ESC # u ''[F'')]"

definition send_key :: "pyrt \<Rightarrow> bool \<Rightarrow> ustr \<Rightarrow> ClaudePTY \<Rightarrow> outcome" where
  "send_key R is_windows key s =
     (if process s = None \<or> \<not> running s then Inr s
      else
        let key_lower = lower R key;
            data = (case map_of key_map key_lower of
                      Some d \<Rightarrow> d
                    | None \<Rightarrow> if length key = 1 then key else key)
        in child_send data s)"

text \<open>
  \<open>send_keys\<close>: the delay between keys is a duration, in milliseconds here (50 by
  default); \<open>time.sleep\<close> lets time pass and changes nothing the model observes.
\<close>

fun send_keys :: "pyrt \<Rightarrow> bool \<Rightarrow> ustr list \<Rightarrow> nat \<Rightarrow> ClaudePTY \<Rightarrow> outcome" where
  "send_keys R is_windows [] delay s = Inr s"
| "send_keys R is_windows (key # keys) delay s =
     and_then (send_key R is_windows key s) (send_keys R is_windows keys delay)"

definition send_escape :: "pyrt \<Rightarrow> bool \<Rightarrow> ClaudePTY \<Rightarrow> outcome" where
  "send_escape R is_windows s =
     (if process s = None \<or> \<not> running s then Inr s
      else send_key R is_windows (u ''escape'') s)"

definition send_interrupt :: "bool \<Rightarrow> ClaudePTY \<Rightarrow> outcome" where
  \<comment> \<open>\<open>write("\x03")\<close> on Windows, \<open>sendcontrol("c")\<close> elsewhere: the byte 3 either way\<close>
  "send_interrupt is_windows s =
     (if process s = None \<or> \<not> running s then Inr s
      else child_send [3] s)"

definition stop :: "bool \<Rightarrow> bool \<Rightarrow> ClaudePTY \<Rightarrow> ClaudePTY" where
  \<comment> \<open>\<open>terminate()\<close> on Windows and \<open>close()\<close> elsewhere both end in a closed handle\<close>
  "stop is_windows tcsetattr_ok s =
     (let s1 = restore_terminal is_windows tcsetattr_ok (s\<lparr>running := False\<rparr>)
      in case process s1 of
           None \<Rightarrow> s1
         | Some p \<Rightarrow> s1\<lparr>process := Some (p\<lparr>closed := True\<rparr>)\<rparr>)"

section \<open>Input relay (Unix)\<close>

text \<open>One pass of \<open>_read_input_unix\<close>: \<open>os.read\<close> returns bytes or raises \<open>OSError\<close>.\<close>

datatype input_event = InBytes "nat list" | InOSError

definition read_input_unix_step ::
  "pyrt \<Rightarrow> input_event \<Rightarrow> ClaudePTY \<Rightarrow> bool \<times> ClaudePTY" where
  "read_input_unix_step R ev s =
     (case ev of
        InOSError \<Rightarrow> (False, s)
      | InBytes raw_data \<Rightarrow>
          if raw_data = [] then (False, s)
          else
            let data = decode_utf8_ignore R raw_data
            in if str_in (ESC # u ''[M'') data \<or> str_in (ESC # u ''[<'') data then (True, s)
               else if process s \<noteq> None \<and> running s then
                 (case child_send data s of
                    Inl (e, s1) \<Rightarrow> (False, s1)
                  | Inr s1 \<Rightarrow> (True, s1))
               else (True, s))"

fun read_input_unix :: "pyrt \<Rightarrow> input_event list \<Rightarrow> ClaudePTY \<Rightarrow> ClaudePTY" where
  "read_input_unix R [] s = s"
| "read_input_unix R (ev # evs) s =
     (if running s then
        (case read_input_unix_step R ev s of
           (True, s1) \<Rightarrow> read_input_unix R evs s1
         | (False, s1) \<Rightarrow> s1)
      else s)"

section \<open>Screen state and prompt detection\<close>

fun split_lines :: "ustr \<Rightarrow> ustr list" where
  \<comment> \<open>\<open>text.split('\n')\<close>\<close>
  "split_lines [] = [[]]"
| "split_lines (c # cs) =
     (if c = LF then [] # split_lines cs
      else (case split_lines cs of [] \<Rightarrow> [[c]] | l # ls \<Rightarrow> (c # l) # ls))"

definition strip_ansi :: "pyrt \<Rightarrow> ustr \<Rightarrow> ustr" where
  \<comment> \<open>the two \<open>re.sub\<close> calls of \<open>get_screen_state\<close>\<close>
  "strip_ansi R text = re_delete (isword R) osc_re (re_delete (isword R) csi_re text)"

definition get_screen_state :: "pyrt \<Rightarrow> ClaudePTY \<Rightarrow> ustr" where
  "get_screen_state R s =
     (let text = strip_ansi R (screen_buffer s);
          lines = split_lines text
      in join [LF] (drop (length lines - 50) lines))"

definition menu_prompt_in :: "pyrt \<Rightarrow> ustr \<Rightarrow> bool" where
  \<comment> \<open>the body of \<open>has_menu_prompt\<close> after \<open>text = self.get_screen_state()\<close>\<close>
  "menu_prompt_in R text =
     (if str_in [10095] text then True
      else if re_search (isword R) yes_no_re text then True
      else if re_search (isword R) (numbered_re R) text
              \<and> re_search (isword R) (decision_re R) text then True
      else False)"

definition has_menu_prompt :: "pyrt \<Rightarrow> ClaudePTY \<Rightarrow> bool" where
  "has_menu_prompt R s = menu_prompt_in R (get_screen_state R s)"

section \<open>Observations and sample inputs\<close>

text \<open>The last \<open>n\<close> elements of a list, and the session an outcome leaves behind.\<close>

definition last_n :: "nat \<Rightarrow> 'a list \<Rightarrow> 'a list" where
  "last_n n xs = drop (length xs - n) xs"

definition after :: "outcome \<Rightarrow> ClaudePTY" where
  "after r = (case r of Inl (e, s) \<Rightarrow> s | Inr s \<Rightarrow> s)"

text \<open>
  What a run of the output loop offers to the screen buffer: the characters read (Unix),
  the chunks read with the device-attribute responses filtered out (Windows).
\<close>

definition chars_read :: "read_event list \<Rightarrow> ustr" where
  "chars_read evs = concat (map (\<lambda>ev. case ev of ReadChar c \<Rightarrow> [c] | _ \<Rightarrow> []) evs)"

definition data_read :: "pyrt \<Rightarrow> win_event list \<Rightarrow> ustr" where
  "data_read R evs =
     concat (map (\<lambda>ev. case ev of WData d \<Rightarrow> re_delete (isword R) da_pattern d | _ \<Rightarrow> []) evs)"

text \<open>A runtime whose tables hold nothing beyond ASCII; its decoder passes ASCII through.\<close>

definition rt0 :: pyrt where
  "rt0 = \<lparr>isalpha_nonascii = (\<lambda>_. False), isspace_nonascii = (\<lambda>_. False),
     isdecimal_nonascii = (\<lambda>_. False), isalnum_nonascii = (\<lambda>_. False),
     ignorecase_nonascii = (\<lambda>_ _. False), lower_nonascii = (\<lambda>s. s),
     decode_utf8_ignore = filter (\<lambda>b. b < 128)\<rparr>"


definition rows_reserved :: "ClaudePTY \<Rightarrow> bool" where
  "rows_reserved s \<longleftrightarrow> pty_lines s + 2 = term_lines s"

definition restore_sequence :: ustr where
  \<comment> \<open>what \<open>_restore_terminal\<close> writes\<close>
  "restore_sequence = reset_scroll_region @ clear_screen @ cursor_home"

definition started0 :: ClaudePTY where
  "started0 = \<lparr>process = Some \<lparr>cmdline = [u ''claude''], sent = [], winsize = (28, 100),
       closed = False\<rparr>,
     running = True, old_tty_settings = Some Original, screen_buffer = [], term_lines = 30,
     term_cols = 100, esc_buffer = [], status_line1 = [], status_line2 = [], pty_lines = 28,
     needs_status_redraw = False, stdout = ESC # u ''[1;28r'', tty = Raw\<rparr>"

definition stopped0 :: ClaudePTY where
  "stopped0 = stop False True started0"

definition small0 :: ClaudePTY where
  "small0 = started0\<lparr>term_lines := 12, term_cols := 10, pty_lines := 10\<rparr>"

definition overlay_output :: "ClaudePTY \<Rightarrow> ustr" where
  \<comment> \<open>what \<open>draw_status_bar\<close> writes for the stored status lines\<close>
  "overlay_output s =
     save_cursor
     @ move_to_line (term_lines s - 1) @ clear_line @ black_on_white
     @ padded (term_cols s) (status_line1 s) @ reset_format
     @ move_to_line (term_lines s) @ clear_line @ bright_white
     @ padded (term_cols s) (status_line2 s) @ reset_format
     @ restore_cursor"

definition listening0 :: ClaudePTY where
  "listening0 = small0\<lparr>status_line1 := u ''Listening'', status_line2 := []\<rparr>"

text \<open>
  A text put together from pieces: plain text without \<open>ESC\<close>, CSI sequences
  \<open>ESC [ params final\<close> with parameters from \<open>[0-9;]\<close> and a letter as final character,
  and OSC sequences \<open>ESC ] body BEL\<close> with any body free of \<open>BEL\<close>.
\<close>

datatype piece = Plain ustr | CSI ustr nat | OSC ustr

fun render_piece :: "piece \<Rightarrow> ustr" where
  "render_piece (Plain t) = t"
| "render_piece (CSI params final) = 27 # 91 # params @ [final]"
| "render_piece (OSC body) = 27 # 93 # body @ [7]"

fun piece_ok :: "piece \<Rightarrow> bool" where
  "piece_ok (Plain t) \<longleftrightarrow> 27 \<notin> set t"
| "piece_ok (CSI params final) \<longleftrightarrow>
     list_all (\<lambda>c. ascii_digit c \<or> c = 59) params \<and> ascii_letter final"
| "piece_ok (OSC body) \<longleftrightarrow> 7 \<notin> set body"

fun plain_of :: "piece \<Rightarrow> ustr" where
  "plain_of (Plain t) = t"
| "plain_of (CSI params final) = []"
| "plain_of (OSC body) = []"

definition render :: "piece list \<Rightarrow> ustr" where
  "render ps = concat (map render_piece ps)"

definition plain_text :: "piece list \<Rightarrow> ustr" where
  "plain_text ps = concat (map plain_of ps)"

text \<open>Where \<open>P*L\<close> ends, for classes \<open>P\<close> and \<open>L\<close>: behind the first character outside \<open>P\<close>.\<close>

definition seq_end :: "(nat \<Rightarrow> bool) \<Rightarrow> (nat \<Rightarrow> bool) \<Rightarrow> ustr \<Rightarrow> pos list" where
  "seq_end P L s = (case dropWhile P s of [] \<Rightarrow> [] | c # cs \<Rightarrow> if L c then [(Some c, cs)] else [])"

definition pieces0 :: "piece list" where
  "pieces0 = [Plain (u ''ab''), CSI (u ''1;32'') 109, Plain (u ''c''), OSC (u ''0;t''), CSI [] 72]"

definition before :: "nat option \<Rightarrow> ustr \<Rightarrow> nat option" where
  \<comment> \<open>the character before the position reached by reading \<open>xs\<close> from a position after \<open>b\<close>\<close>
  "before b xs = (if xs = [] then b else Some (last xs))"

definition env0 :: start_env where
  "env0 = \<lparr>env_term_size = Some (30, 100), env_which = None, env_spawn_ok = True,
     env_tcgetattr_ok = True, env_setraw_ok = True\<rparr>"

section \<open>Geometry and the scroll region\<close>

lemma start_unix_stdout:
  "start_unix env args s = Inr s' \<Longrightarrow>
     stdout s' = stdout s @ set_scroll_region (pty_lines s) \<and> pty_lines s' = pty_lines s
     \<and> term_lines s' = term_lines s \<and> term_cols s' = term_cols s"
  by (auto simp: start_unix_def write_stdout_def Let_def split: if_splits)

lemma start_windows_frame:
  "start_windows env args s = Inr s' \<Longrightarrow>
     stdout s' = stdout s \<and> pty_lines s' = pty_lines s
     \<and> term_lines s' = term_lines s \<and> term_cols s' = term_cols s"
  by (auto simp: start_windows_def Let_def split: option.splits if_splits)

lemma start_geometry:
  assumes "start w env args s = Inr s'"
  shows "term_lines s' = (case env_term_size env of Some (l, c) \<Rightarrow> l | None \<Rightarrow> 24)"
    and "term_cols s' = (case env_term_size env of Some (l, c) \<Rightarrow> c | None \<Rightarrow> 80)"
    and "pty_lines s' = term_lines s' - 2"
    and "running s'"
  using assms
  by (auto simp: start_def Let_def STATUS_BAR_LINES_def split: option.splits sum.splits if_splits
      dest!: start_unix_stdout start_windows_frame)


lemma handle_resize_geometry:
  "pty_lines (handle_resize (Some (l, c)) s) = l - 2"
  "term_lines (handle_resize (Some (l, c)) s) = l"
  "term_cols (handle_resize (Some (l, c)) s) = c"
  by (auto simp: handle_resize_def Let_def write_stdout_def STATUS_BAR_LINES_def
      split: option.splits)


lemma handle_resize_None [simp]: "handle_resize None s = s"
  by (simp add: handle_resize_def)


lemma handle_resize_rows:
  "rows_reserved s \<Longrightarrow> rows_reserved (handle_resize sz s)"
proof (cases sz)
  case None
  then show "rows_reserved s \<Longrightarrow> ?thesis" by simp
next
  case (Some lc)
  obtain l c where lc: "lc = (l, c)" by (cases lc)
  show ?thesis
    unfolding rows_reserved_def Some lc handle_resize_geometry by simp
qed


lemma resizes_rows: "rows_reserved s \<Longrightarrow> rows_reserved (resizes sizes s)"
  by (induction sizes arbitrary: s) (auto intro: handle_resize_rows)



lemma resizes_snoc: "resizes (sizes @ [sz]) s = handle_resize sz (resizes sizes s)"
  by (induction sizes arbitrary: s) auto

lemma start_env0: "start False env0 [] (init Original []) = Inr started0"
  by (simp add: start_def start_unix_def env0_def init_def started0_def write_stdout_def
      set_scroll_region_def str_of_int_def digits.simps u_def STATUS_BAR_LINES_def)



text \<open>
  C2. On either platform, when \<open>start\<close> completes the child rows are the terminal rows
  minus 2 (the rows the size query reported, or 24 when it failed); a resize whose size
  query reports \<open>rows\<close> leaves \<open>rows - 2\<close> child rows; and after start and after each of
  any sequence of resize events, child rows + 2 = terminal rows. This holds for every
  size, in particular for rows \<ge> 3.
\<close>

theorem child_rows_are_rows_minus_two:
  assumes "start w env args s = Inr s'"
  shows "(env_term_size env = Some (rows, cols) \<longrightarrow> term_lines s' = rows \<and> pty_lines s' = rows - 2)
     \<and> (env_term_size env = None \<longrightarrow> term_lines s' = 24 \<and> pty_lines s' = 22)
     \<and> pty_lines s' + 2 = term_lines s'
     \<and> pty_lines (resizes sizes s') + 2 = term_lines (resizes sizes s')
     \<and> term_lines (handle_resize (Some (rows', cols')) t) = rows'
     \<and> pty_lines (handle_resize (Some (rows', cols')) t) = rows' - 2"
proof -
  note g = start_geometry [OF assms]
  have "rows_reserved s'"
    using g(3) by (simp add: rows_reserved_def)
  then have "rows_reserved (resizes sizes s')"
    by (rule resizes_rows)
  then show ?thesis
    using g by (auto simp: rows_reserved_def handle_resize_geometry)
qed

theorem child_rows_are_rows_minus_two_witness:
  "start False env0 [] (init Original []) = Inr started0
   \<and> env_term_size env0 = Some (30, 100)
   \<and> term_lines started0 = 30 \<and> pty_lines started0 = 28
   \<and> pty_lines (resizes [Some (3, 1), None] started0) + 2
       = term_lines (resizes [Some (3, 1), None] started0)
   \<and> pty_lines (resizes [Some (3, 1), None] started0) = 1"
proof -
  have "env_term_size env0 = Some (30, 100)"
    by (simp add: env0_def)
  then show ?thesis
    using child_rows_are_rows_minus_two [OF start_env0, of 30 100 "[Some (3, 1), None]" 3 1]
      start_env0
    by (simp add: handle_resize_geometry)
qed

section \<open>The screen buffer\<close>


lemma last_n_last_n: "last_n n (last_n n xs @ d) = last_n n (xs @ d)"
proof (cases "length xs \<le> n")
  case True
  then show ?thesis by (simp add: last_n_def)
next
  case False
  then have "length xs - n + n = length xs" by simp
  then have "length xs + length d - (length xs - n + n) + (length xs - n)
      = length xs + length d - n"
    using False by simp
  then show ?thesis
    using False by (simp add: last_n_def)
qed

lemma last_n_length: "length (last_n n xs) \<le> n"
  by (auto simp: last_n_def)

lemma last_n_suffix: "suffix (last_n n xs) xs"
  by (simp add: last_n_def suffix_drop)

lemma append_screen_buffer_eq:
  "append_screen_buffer d s = s\<lparr>screen_buffer := last_n SCREEN_BUFFER_SIZE (screen_buffer s @ d)\<rparr>"
  by (auto simp: append_screen_buffer_def Let_def last_n_def)

lemma draw_status_bar_buffer:
  "screen_buffer (after (draw_status_bar l1 l2 s)) = screen_buffer s"
  by (auto simp: draw_status_bar_def after_def Let_def write_stdout_def split: sum.splits)

lemma restore_status_bar_buffer:
  "screen_buffer (after (restore_status_bar s)) = screen_buffer s"
  using draw_status_bar_buffer [of _ _ "write_stdout (set_scroll_region (pty_lines s)) s"]
  by (auto simp: restore_status_bar_def Let_def write_stdout_def after_def)

lemma track_buffer:
  "screen_buffer (after (track_escape_sequence R c s)) = screen_buffer s"
  using restore_status_bar_buffer [of "s\<lparr>esc_buffer := esc_buffer s @ [c]\<rparr>"]
  by (auto simp: track_escape_sequence_def Let_def after_def and_then_def split: sum.splits)

lemma restore_terminal_buffer:
  "screen_buffer (restore_terminal w tc s) = screen_buffer s"
  by (auto simp: restore_terminal_def Let_def write_stdout_def split: option.splits)

lemma unix_step_buffer:
  "screen_buffer (snd (read_output_unix_step R tc ev s)) =
     (case ev of ReadChar c \<Rightarrow> if fst (read_output_unix_step R tc ev s)
                            then last_n SCREEN_BUFFER_SIZE (screen_buffer s @ [c])
                            else screen_buffer s
      | _ \<Rightarrow> screen_buffer s)"
proof (cases ev)
  case (ReadChar c)
  show ?thesis
    using track_buffer [of R c "write_stdout [c] s"]
    by (auto simp: ReadChar read_output_unix_step_def after_def append_screen_buffer_eq
        restore_terminal_buffer write_stdout_def split: sum.splits)
next
  case Timeout
  show ?thesis
    using draw_status_bar_buffer [of "status_line1 s" "status_line2 s" "s\<lparr>needs_status_redraw := False\<rparr>"]
    by (auto simp: Timeout read_output_unix_step_def after_def split: sum.splits)
qed (auto simp: read_output_unix_step_def restore_terminal_buffer)

lemma windows_step_buffer:
  "screen_buffer (snd (read_output_windows_step R ev s)) =
     (case ev of
        WData d \<Rightarrow> last_n SCREEN_BUFFER_SIZE (screen_buffer s @ re_delete (isword R) da_pattern d)
      | _ \<Rightarrow> screen_buffer s)
   \<or> screen_buffer (snd (read_output_windows_step R ev s)) = screen_buffer s
      \<and> (\<forall>d. ev = WData d \<longrightarrow> re_delete (isword R) da_pattern d = [])"
  by (cases ev)
     (auto simp: read_output_windows_step_def Let_def append_screen_buffer_eq write_stdout_def
        re_delete_def re_delete_from.simps [of _ _ _ "[]"] da_pattern_def lit_def)

lemma unix_loop_buffer:
  "length (screen_buffer s) \<le> SCREEN_BUFFER_SIZE \<Longrightarrow>
   \<exists>h. prefix h (chars_read evs)
     \<and> screen_buffer (read_output_unix R tc evs s) = last_n SCREEN_BUFFER_SIZE (screen_buffer s @ h)"
proof (induction evs arbitrary: s)
  case Nil
  then show ?case by (intro exI [of _ "[]"]) (simp add: last_n_def)
next
  case (Cons ev evs)
  have keep: "\<exists>h. prefix h (chars_read (ev # evs))
     \<and> screen_buffer s = last_n SCREEN_BUFFER_SIZE (screen_buffer s @ h)"
    using Cons.prems by (intro exI [of _ "[]"]) (simp add: last_n_def)
  show ?case
  proof (cases "running s \<and> process s \<noteq> None")
    case False
    with keep show ?thesis by auto
  next
    case True
    obtain b s1 where step: "read_output_unix_step R tc ev s = (b, s1)"
      by (cases "read_output_unix_step R tc ev s")
    have buf: "screen_buffer s1 =
       (case ev of ReadChar c \<Rightarrow> if b then last_n SCREEN_BUFFER_SIZE (screen_buffer s @ [c])
                                 else screen_buffer s
        | _ \<Rightarrow> screen_buffer s)"
      using unix_step_buffer [of R tc ev s] step by (cases ev) simp_all
    show ?thesis
    proof (cases b)
      case False
      then have "screen_buffer s1 = screen_buffer s"
        using buf by (cases ev) auto
      with keep True step False show ?thesis by simp
    next
      case b: True
      have len: "length (screen_buffer s1) \<le> SCREEN_BUFFER_SIZE"
        using buf b Cons.prems by (cases ev) (auto simp: last_n_length)
      from Cons.IH [OF len] obtain h where
        h: "prefix h (chars_read evs)"
           "screen_buffer (read_output_unix R tc evs s1)
              = last_n SCREEN_BUFFER_SIZE (screen_buffer s1 @ h)"
        by blast
      show ?thesis
      proof (cases ev)
        case (ReadChar c)
        then have "screen_buffer (read_output_unix R tc (ev # evs) s)
            = last_n SCREEN_BUFFER_SIZE (screen_buffer s @ (c # h))"
          using True step b h(2) buf last_n_last_n [of SCREEN_BUFFER_SIZE "screen_buffer s @ [c]" h]
          by simp
        moreover have "prefix (c # h) (chars_read (ev # evs))"
          using h(1) ReadChar by (simp add: chars_read_def)
        ultimately show ?thesis by blast
      next
        case Timeout
        then show ?thesis
          using True step b h buf by (auto simp: chars_read_def)
      next
        case Eof
        then show ?thesis
          using True step b h buf by (auto simp: chars_read_def)
      next
        case ReadError
        then show ?thesis
          using True step b h buf by (auto simp: chars_read_def)
      qed
    qed
  qed
qed

lemma windows_loop_buffer:
  "length (screen_buffer s) \<le> SCREEN_BUFFER_SIZE \<Longrightarrow>
   \<exists>h. prefix h (data_read R evs)
     \<and> screen_buffer (read_output_windows R evs s) = last_n SCREEN_BUFFER_SIZE (screen_buffer s @ h)"
proof (induction evs arbitrary: s)
  case Nil
  then show ?case by (intro exI [of _ "[]"]) (simp add: last_n_def)
next
  case (Cons ev evs)
  have keep: "\<exists>h. prefix h (data_read R (ev # evs))
     \<and> screen_buffer s = last_n SCREEN_BUFFER_SIZE (screen_buffer s @ h)"
    using Cons.prems by (intro exI [of _ "[]"]) (simp add: last_n_def)
  show ?case
  proof (cases "running s \<and> process s \<noteq> None")
    case False
    with keep show ?thesis by auto
  next
    case True
    obtain b s1 where step: "read_output_windows_step R ev s = (b, s1)"
      by (cases "read_output_windows_step R ev s")
    define d where "d = (case ev of WData d \<Rightarrow> re_delete (isword R) da_pattern d | _ \<Rightarrow> [])"
    have buf: "screen_buffer s1 = last_n SCREEN_BUFFER_SIZE (screen_buffer s @ d)"
      using windows_step_buffer [of R ev s] step Cons.prems
      by (cases ev) (auto simp: d_def last_n_def)
    have dr: "data_read R (ev # evs) = d @ data_read R evs"
      by (simp add: data_read_def d_def)
    show ?thesis
    proof (cases b)
      case False
      then have "d = []"
        using step by (cases ev) (auto simp: d_def read_output_windows_step_def Let_def split: if_splits)
      then have "screen_buffer s1 = screen_buffer s"
        using buf Cons.prems by (simp add: last_n_def)
      with keep True step False show ?thesis by simp
    next
      case b: True
      have len: "length (screen_buffer s1) \<le> SCREEN_BUFFER_SIZE"
        using buf by (simp add: last_n_length)
      from Cons.IH [OF len] obtain h where
        h: "prefix h (data_read R evs)"
           "screen_buffer (read_output_windows R evs s1)
              = last_n SCREEN_BUFFER_SIZE (screen_buffer s1 @ h)"
        by blast
      have "screen_buffer (read_output_windows R (ev # evs) s)
            = last_n SCREEN_BUFFER_SIZE (screen_buffer s @ (d @ h))"
        using True step b h(2) buf last_n_last_n [of SCREEN_BUFFER_SIZE "screen_buffer s @ d" h]
        by simp
      moreover have "prefix (d @ h) (data_read R (ev # evs))"
        using h(1) dr by simp
      ultimately show ?thesis by blast
    qed
  qed
qed

text \<open>
  C5. Each append leaves the last 4000 characters of the buffer followed by the new data.
  Over any run of either output loop, started with a buffer within capacity (it is empty
  after \<open>__init__\<close>), the buffer is the last 4000 characters of the old buffer followed by
  the output appended during the run, which is a prefix \<open>h\<close> of the output on offer: so it
  never exceeds 4000 characters and is a suffix of the history, trimmed only at the front.
\<close>

theorem screen_buffer_bounded_suffix:
  assumes "length (screen_buffer s) \<le> SCREEN_BUFFER_SIZE"
  shows "screen_buffer (append_screen_buffer d s) = last_n 4000 (screen_buffer s @ d)
     \<and> (\<exists>h. prefix h (chars_read evs)
           \<and> screen_buffer (read_output_unix R tc evs s) = last_n 4000 (screen_buffer s @ h)
           \<and> suffix (screen_buffer (read_output_unix R tc evs s)) (screen_buffer s @ h))
     \<and> length (screen_buffer (read_output_unix R tc evs s)) \<le> 4000
     \<and> (\<exists>h. prefix h (data_read R wevs)
           \<and> screen_buffer (read_output_windows R wevs s) = last_n 4000 (screen_buffer s @ h)
           \<and> suffix (screen_buffer (read_output_windows R wevs s)) (screen_buffer s @ h))
     \<and> length (screen_buffer (read_output_windows R wevs s)) \<le> 4000"
proof -
  from unix_loop_buffer [OF assms, of evs R tc] obtain h where
    h: "prefix h (chars_read evs)"
       "screen_buffer (read_output_unix R tc evs s) = last_n 4000 (screen_buffer s @ h)"
    by (auto simp: SCREEN_BUFFER_SIZE_def)
  from windows_loop_buffer [OF assms, of R wevs] obtain k where
    k: "prefix k (data_read R wevs)"
       "screen_buffer (read_output_windows R wevs s) = last_n 4000 (screen_buffer s @ k)"
    by (auto simp: SCREEN_BUFFER_SIZE_def)
  have "screen_buffer (append_screen_buffer d s) = last_n 4000 (screen_buffer s @ d)"
    by (simp add: append_screen_buffer_eq SCREEN_BUFFER_SIZE_def)
  moreover have "\<exists>h. prefix h (chars_read evs)
           \<and> screen_buffer (read_output_unix R tc evs s) = last_n 4000 (screen_buffer s @ h)
           \<and> suffix (screen_buffer (read_output_unix R tc evs s)) (screen_buffer s @ h)"
    using h last_n_suffix [of 4000 "screen_buffer s @ h"] by auto
  moreover have "\<exists>h. prefix h (data_read R wevs)
           \<and> screen_buffer (read_output_windows R wevs s) = last_n 4000 (screen_buffer s @ h)
           \<and> suffix (screen_buffer (read_output_windows R wevs s)) (screen_buffer s @ h)"
    using k last_n_suffix [of 4000 "screen_buffer s @ k"] by auto
  moreover have "length (screen_buffer (read_output_unix R tc evs s)) \<le> 4000"
    using h(2) by (simp add: last_n_length)
  moreover have "length (screen_buffer (read_output_windows R wevs s)) \<le> 4000"
    using k(2) by (simp add: last_n_length)
  ultimately show ?thesis by blast
qed

lemma relay_hi:
  "screen_buffer (read_output_unix rt0 True [ReadChar 104, Timeout, ReadChar 105] started0)
     = u ''hi''"
  by (simp add: started0_def read_output_unix_step_def track_escape_sequence_def
      write_stdout_def append_screen_buffer_def SCREEN_BUFFER_SIZE_def u_def Let_def
      isalpha_def ascii_letter_def and_then_def)

theorem screen_buffer_bounded_suffix_witness:
  "length (screen_buffer started0) \<le> SCREEN_BUFFER_SIZE
   \<and> screen_buffer (read_output_unix rt0 True [ReadChar 104, Timeout, ReadChar 105] started0)
       = u ''hi''
   \<and> length (screen_buffer (read_output_unix rt0 True [ReadChar 104, Timeout, ReadChar 105]
        started0)) \<le> 4000"
proof -
  have len: "length (screen_buffer started0) \<le> SCREEN_BUFFER_SIZE"
    by (simp add: started0_def)
  from screen_buffer_bounded_suffix [OF len, of _ "[ReadChar 104, Timeout, ReadChar 105]" rt0 True]
  have "length (screen_buffer (read_output_unix rt0 True [ReadChar 104, Timeout, ReadChar 105]
        started0)) \<le> 4000"
    by blast
  with len relay_hi show ?thesis by simp
qed

section \<open>Overlay, guards and shutdown\<close>



lemma send_keys_not_running: "\<not> running s \<Longrightarrow> send_keys R w keys delay s = Inr s"
  by (induction keys) (auto simp: send_key_def and_then_def)

lemma stop_not_running: "\<not> running (stop w tc s)"
  by (auto simp: stop_def Let_def restore_terminal_def write_stdout_def split: option.splits)





text \<open>
  C7. The session is not running after \<open>__init__\<close> (before \<open>start\<close>) and after \<open>stop\<close>.
  On a session that is not running, \<open>send\<close>, \<open>send_key\<close>, \<open>send_keys\<close>, \<open>send_escape\<close>,
  \<open>send_interrupt\<close> and \<open>draw_status_bar\<close> return normally and leave the session, the
  child and the terminal exactly as they were.
\<close>

theorem not_running_operations_do_nothing:
  "\<not> running (init m out) \<and> \<not> running (stop w' tc s0)
   \<and> (\<not> running s \<longrightarrow>
        send w text s = Inr s \<and> send_key R w key s = Inr s
        \<and> send_keys R w keys delay s = Inr s \<and> send_escape R w s = Inr s
        \<and> send_interrupt w s = Inr s \<and> draw_status_bar line1 line2 s = Inr s)"
  by (simp add: init_def stop_not_running send_def send_key_def send_keys_not_running
      send_escape_def send_interrupt_def draw_status_bar_def)

theorem not_running_operations_do_nothing_witness:
  "\<not> running stopped0
   \<and> send False (u ''hello'') stopped0 = Inr stopped0
   \<and> send_keys rt0 False [u ''down'', u ''enter''] 50 stopped0 = Inr stopped0
   \<and> draw_status_bar (u ''Listening...'') [] stopped0 = Inr stopped0"
proof -
  have "\<not> running stopped0"
    using not_running_operations_do_nothing [where w' = False and tc = True and ?s0.0 = started0]
    by (simp add: stopped0_def)
  then show ?thesis
    using not_running_operations_do_nothing [where s = stopped0 and w = False and R = rt0]
    by blast
qed

text \<open>
  C8. A second \<open>stop\<close> changes nothing but to write the restoration sequence (scroll
  region reset, clear screen, cursor home) once more on POSIX: after one call and after
  two the terminal output ends with that sequence, the input mode, the saved settings and
  the closed child handle are the same, and the session is not running; when the saved
  settings could be restored, the first call restored them. The one assumption is on the
  environment: \<open>tcsetattr\<close> does not fail in the first call and succeed in the second.
  \<open>stop\<close> has no raising path: the failure of \<open>tcsetattr\<close> is swallowed and closing a
  closed handle does nothing.
\<close>

theorem stop_twice_same_as_once:
  assumes "tc2 \<longrightarrow> tc1 \<or> old_tty_settings s = None"
  shows "stop w tc2 (stop w tc1 s) =
     (stop w tc1 s)\<lparr>stdout := stdout (stop w tc1 s) @ (if w then [] else restore_sequence)\<rparr>
   \<and> (\<not> w \<longrightarrow> suffix restore_sequence (stdout (stop w tc1 s))
              \<and> suffix restore_sequence (stdout (stop w tc2 (stop w tc1 s))))
   \<and> tty (stop w tc2 (stop w tc1 s)) = tty (stop w tc1 s)
   \<and> old_tty_settings (stop w tc2 (stop w tc1 s)) = old_tty_settings (stop w tc1 s)
   \<and> process (stop w tc2 (stop w tc1 s)) = process (stop w tc1 s)
   \<and> \<not> running (stop w tc2 (stop w tc1 s))
   \<and> (\<not> w \<and> tc1 \<and> old_tty_settings s = Some mode \<longrightarrow>
        tty (stop w tc1 s) = mode \<and> old_tty_settings (stop w tc1 s) = None)"
  using assms
  by (auto simp: stop_def Let_def restore_terminal_def write_stdout_def restore_sequence_def
      suffix_def split: option.splits)

theorem stop_twice_same_as_once_witness:
  "old_tty_settings started0 = Some Original
   \<and> stop False True (stop False True started0) =
       (stop False True started0)\<lparr>stdout := stdout (stop False True started0) @ restore_sequence\<rparr>
   \<and> tty (stop False True started0) = Original
   \<and> tty (stop False True (stop False True started0)) = Original
   \<and> stdout (stop False True started0)
       = ESC # u ''[1;28r'' @ ESC # u ''[r'' @ ESC # u ''[2J'' @ ESC # u ''[H''"
proof -
  have o: "old_tty_settings started0 = Some Original"
    by (simp add: started0_def)
  have out: "stdout (stop False True started0)
       = ESC # u ''[1;28r'' @ ESC # u ''[r'' @ ESC # u ''[2J'' @ ESC # u ''[H''"
    by (simp add: stop_def restore_terminal_def write_stdout_def started0_def Let_def
        reset_scroll_region_def clear_screen_def cursor_home_def)
  from stop_twice_same_as_once [of True True started0 False Original] o out
  show ?thesis by simp
qed

section \<open>The escape tracker\<close>

lemma draw_stored:
  assumes "running s" and "0 < term_cols s"
  shows "draw_status_bar (status_line1 s) (status_line2 s) s
     = Inr (s\<lparr>stdout := stdout s @ overlay_output s\<rparr>)"
  using assms
  by (simp add: draw_status_bar_def Let_def status_text_def write_stdout_def overlay_output_def)

lemma restore_status_bar_running:
  assumes "running s" and "status_line1 s = [] \<or> 0 < term_cols s"
  shows "restore_status_bar s
     = Inr (s\<lparr>stdout := stdout s @ set_scroll_region (pty_lines s)
              @ (if status_line1 s \<noteq> [] then overlay_output s else [])\<rparr>)"
proof (cases "status_line1 s = []")
  case True
  then show ?thesis
    by (simp add: restore_status_bar_def Let_def write_stdout_def)
next
  case False
  let ?s1 = "write_stdout (set_scroll_region (pty_lines s)) s"
  have "running ?s1" "0 < term_cols ?s1"
    using assms False by (simp_all add: write_stdout_def)
  from draw_stored [OF this] False show ?thesis
    by (simp add: restore_status_bar_def Let_def write_stdout_def overlay_output_def)
qed

lemma track_ESC: "track_escape_sequence R 27 s = Inr (s\<lparr>esc_buffer := [27]\<rparr>)"
  by (simp add: track_escape_sequence_def)

lemma isalpha_ascii [simp]: "\<not> isalpha R 27" "\<not> isalpha R 91" "isalpha R 114"
  by (simp_all add: isalpha_def ascii_letter_def)

lemma track_reset:
  assumes "esc_buffer s = [27, 91]" and "running s" and "status_line1 s = [] \<or> 0 < term_cols s"
  shows "track_escape_sequence R 114 s
     = Inr (s\<lparr>esc_buffer := [],
              stdout := stdout s @ set_scroll_region (pty_lines s)
                @ (if status_line1 s \<noteq> [] then overlay_output s else [])\<rparr>)"
proof -
  let ?s1 = "s\<lparr>esc_buffer := [27, 91, 114]\<rparr>"
  have "running ?s1" "status_line1 ?s1 = [] \<or> 0 < term_cols ?s1"
    using assms by simp_all
  from restore_status_bar_running [OF this] assms(1) show ?thesis
    by (simp add: track_escape_sequence_def Let_def and_then_def u_def overlay_output_def)
qed

lemma relay_plain:
  assumes "running s" and "process s \<noteq> None"
    and "track_escape_sequence R c (write_stdout [c] s) = Inr s1"
  shows "read_output_unix R tc (ReadChar c # evs) s
     = read_output_unix R tc evs (append_screen_buffer [c] s1)"
  using assms by (simp add: read_output_unix_step_def)

lemma relay_reset:
  assumes "running s" and "process s \<noteq> None" and "status_line1 s = [] \<or> 0 < term_cols s"
  shows "read_output_unix R tc (ReadChar 27 # ReadChar 91 # ReadChar 114 # evs) s =
     read_output_unix R tc evs
       (s\<lparr>esc_buffer := [],
          stdout := stdout s @ [27, 91, 114] @ set_scroll_region (pty_lines s)
            @ (if status_line1 s \<noteq> [] then overlay_output s else []),
          screen_buffer := last_n 4000 (screen_buffer s @ [27, 91, 114])\<rparr>)"
proof -
  let ?b1 = "last_n 4000 (screen_buffer s @ [27])"
  let ?b2 = "last_n 4000 (?b1 @ [91])"
  let ?b3 = "last_n 4000 (?b2 @ [114])"
  let ?s1 = "s\<lparr>esc_buffer := [27], stdout := stdout s @ [27], screen_buffer := ?b1\<rparr>"
  let ?s2 = "s\<lparr>esc_buffer := [27, 91], stdout := stdout s @ [27, 91], screen_buffer := ?b2\<rparr>"
  let ?s2w = "write_stdout [114] ?s2"
  have b3: "?b3 = last_n 4000 (screen_buffer s @ [27, 91, 114])"
    using last_n_last_n [of 4000 "screen_buffer s @ [27]" "[91]"]
      last_n_last_n [of 4000 "screen_buffer s" "[27]"]
      last_n_last_n [of 4000 "screen_buffer s @ [27, 91]" "[114]"]
    by simp
  have 1: "read_output_unix R tc (ReadChar 27 # ReadChar 91 # ReadChar 114 # evs) s
      = read_output_unix R tc (ReadChar 91 # ReadChar 114 # evs) ?s1"
    using assms(1,2)
    by (simp add: read_output_unix_step_def track_ESC write_stdout_def append_screen_buffer_eq
        SCREEN_BUFFER_SIZE_def)
  have 2: "read_output_unix R tc (ReadChar 91 # ReadChar 114 # evs) ?s1
      = read_output_unix R tc (ReadChar 114 # evs) ?s2"
    using assms(1,2)
    by (simp add: read_output_unix_step_def track_escape_sequence_def Let_def write_stdout_def
        append_screen_buffer_eq SCREEN_BUFFER_SIZE_def)
  have pre: "esc_buffer ?s2w = [27, 91]" "running ?s2w"
      "status_line1 ?s2w = [] \<or> 0 < term_cols ?s2w"
    using assms by (simp_all add: write_stdout_def)
  have 3: "read_output_unix R tc (ReadChar 114 # evs) ?s2
      = read_output_unix R tc evs
          (s\<lparr>esc_buffer := [],
             stdout := stdout s @ [27, 91, 114] @ set_scroll_region (pty_lines s)
               @ (if status_line1 s \<noteq> [] then overlay_output s else []),
             screen_buffer := ?b3\<rparr>)"
    using assms(1,2) track_reset [OF pre, of R]
    by (simp add: read_output_unix_step_def write_stdout_def append_screen_buffer_eq
        SCREEN_BUFFER_SIZE_def overlay_output_def)
  show ?thesis
    unfolding 1 2 3 b3 ..
qed

text \<open>
  C3 (as amended). When the output relay of a running session reads \<open>ESC [ r\<close> from the
  child, then, having relayed the \<open>r\<close> and before it reads anything further, it writes
  \<open>ESC[1;<child rows>r\<close> again and, if a status text is stored, draws the overlay at once;
  the redraw flag is left as it was. The tracker starts accumulating at \<open>ESC\<close>, ignores
  characters outside a sequence, empties the accumulator at a letter or a tilde, and
  otherwise appends, emptying the accumulator once it is longer than 20 characters. (With
  a status text stored the terminal must have a positive width, or drawing raises.)
\<close>

theorem scroll_region_reset_is_answered:
  assumes "running s" and "process s \<noteq> None" and "status_line1 s = [] \<or> 0 < term_cols s"
  shows "read_output_unix R tc (ReadChar 27 # ReadChar 91 # ReadChar 114 # evs) s =
       read_output_unix R tc evs
         (s\<lparr>esc_buffer := [],
            stdout := stdout s @ [27, 91, 114] @ set_scroll_region (pty_lines s)
              @ (if status_line1 s \<noteq> [] then overlay_output s else []),
            screen_buffer := last_n 4000 (screen_buffer s @ [27, 91, 114])\<rparr>)
     \<and> track_escape_sequence R 27 t = Inr (t\<lparr>esc_buffer := [27]\<rparr>)
     \<and> (c \<noteq> 27 \<and> esc_buffer t = [] \<longrightarrow> track_escape_sequence R c t = Inr t)
     \<and> (c \<noteq> 27 \<and> esc_buffer t \<noteq> [] \<and> (isalpha R c \<or> c = 126)
          \<and> esc_buffer t @ [c] \<noteq> [27, 91, 114] \<longrightarrow>
        track_escape_sequence R c t = Inr (t\<lparr>esc_buffer := []\<rparr>))
     \<and> (c \<noteq> 27 \<and> esc_buffer t \<noteq> [] \<and> \<not> (isalpha R c \<or> c = 126) \<longrightarrow>
        track_escape_sequence R c t =
          Inr (t\<lparr>esc_buffer := (if length (esc_buffer t @ [c]) > 20 then []
                                  else esc_buffer t @ [c])\<rparr>))"
proof -
  have "c \<noteq> 27 \<and> esc_buffer t \<noteq> [] \<and> (isalpha R c \<or> c = 126)
          \<and> esc_buffer t @ [c] \<noteq> [27, 91, 114] \<longrightarrow>
        track_escape_sequence R c t = Inr (t\<lparr>esc_buffer := []\<rparr>)"
    by (simp add: track_escape_sequence_def Let_def and_then_def u_def)
  moreover have "c \<noteq> 27 \<and> esc_buffer t \<noteq> [] \<and> \<not> (isalpha R c \<or> c = 126) \<longrightarrow>
        track_escape_sequence R c t =
          Inr (t\<lparr>esc_buffer := (if length (esc_buffer t @ [c]) > 20 then []
                                  else esc_buffer t @ [c])\<rparr>)"
    by (simp add: track_escape_sequence_def Let_def)
  moreover have "c \<noteq> 27 \<and> esc_buffer t = [] \<longrightarrow> track_escape_sequence R c t = Inr t"
    by (simp add: track_escape_sequence_def)
  ultimately show ?thesis
    using relay_reset [OF assms] track_ESC by simp
qed

lemma listening0_facts:
  "running listening0" "process listening0 \<noteq> None" "0 < term_cols listening0"
  "status_line1 listening0 = u ''Listening''" "\<not> needs_status_redraw listening0"
  "pty_lines listening0 = 10"
  by (simp_all add: listening0_def small0_def started0_def)

text \<open>
  The claim as stated fails: after \<open>ESC [ r\<close> has gone through the relay the redraw flag
  is still unset, while the scroll region and the overlay have been written.
\<close>

theorem scroll_region_reset_sets_flag_counterexample:
  "\<not> needs_status_redraw
       (read_output_unix rt0 True [ReadChar 27, ReadChar 91, ReadChar 114] listening0)
   \<and> stdout (read_output_unix rt0 True [ReadChar 27, ReadChar 91, ReadChar 114] listening0)
     = stdout listening0 @ [27, 91, 114] @ set_scroll_region 10 @ overlay_output listening0"
  using relay_reset [of listening0 rt0 True "[]"]
  by (simp add: listening0_facts u_def)

theorem scroll_region_reset_is_answered_witness:
  "running listening0 \<and> process listening0 \<noteq> None
   \<and> (status_line1 listening0 = [] \<or> 0 < term_cols listening0)
   \<and> stdout (read_output_unix rt0 True
        [ReadChar 27, ReadChar 91, ReadChar 114, ReadChar 120] listening0)
     = stdout listening0 @ [27, 91, 114] @ set_scroll_region 10 @ overlay_output listening0
       @ [120]
   \<and> track_escape_sequence rt0 120 (listening0\<lparr>esc_buffer := [27, 93]\<rparr>)
     = Inr (listening0\<lparr>esc_buffer := []\<rparr>)
   \<and> track_escape_sequence rt0 48 (listening0\<lparr>esc_buffer := 27 # replicate 20 48\<rparr>)
     = Inr (listening0\<lparr>esc_buffer := []\<rparr>)"
proof -
  have pre: "running listening0" "process listening0 \<noteq> None"
    "status_line1 listening0 = [] \<or> 0 < term_cols listening0"
    by (simp_all add: listening0_facts)
  note main = scroll_region_reset_is_answered [OF pre, of rt0 True]
  have a: "stdout (read_output_unix rt0 True
        [ReadChar 27, ReadChar 91, ReadChar 114, ReadChar 120] listening0)
     = stdout listening0 @ [27, 91, 114] @ set_scroll_region 10 @ overlay_output listening0
       @ [120]"
    using main [of "[ReadChar 120]"]
    by (simp add: listening0_facts u_def read_output_unix_step_def track_escape_sequence_def
        write_stdout_def append_screen_buffer_def Let_def)
  have b: "track_escape_sequence rt0 120 (listening0\<lparr>esc_buffer := [27, 93]\<rparr>)
     = Inr (listening0\<lparr>esc_buffer := []\<rparr>)"
    using main [of _ "listening0\<lparr>esc_buffer := [27, 93]\<rparr>" 120]
    by (simp add: isalpha_def ascii_letter_def)
  have c: "track_escape_sequence rt0 48 (listening0\<lparr>esc_buffer := 27 # replicate 20 48\<rparr>)
     = Inr (listening0\<lparr>esc_buffer := []\<rparr>)"
    using main [of _ "listening0\<lparr>esc_buffer := 27 # replicate 20 48\<rparr>" 48]
    by (simp add: isalpha_def ascii_letter_def)
  from pre a b c show ?thesis by simp
qed

section \<open>The input relay\<close>

lemma str_in_sublist: "str_in sub s \<longleftrightarrow> sublist sub s"
  by (induction s) (auto simp: sublist_Cons_right)

lemma str_in_iff: "str_in sub s \<longleftrightarrow> (\<exists>pre post. s = pre @ sub @ post)"
  by (simp add: str_in_sublist sublist_def)

text \<open>
  C6 (as amended). The input relay works on whole chunks: a chunk whose decoded text
  contains \<open>ESC[M\<close> or \<open>ESC[<\<close> anywhere is dropped entirely and the loop goes on;
  any other non-empty chunk is sent to the live child of a running session as one write of
  its decoded text, unchanged, and nothing else changes.
\<close>

theorem input_chunk_dropped_or_forwarded:
  assumes "raw \<noteq> []" and "data = decode_utf8_ignore R raw"
  shows "((\<exists>pre post. data = pre @ 27 # u ''[M'' @ post)
          \<or> (\<exists>pre post. data = pre @ 27 # u ''[<'' @ post) \<longrightarrow>
        read_input_unix_step R (InBytes raw) s = (True, s))
     \<and> (\<not> (\<exists>pre post. data = pre @ 27 # u ''[M'' @ post)
          \<and> \<not> (\<exists>pre post. data = pre @ 27 # u ''[<'' @ post)
          \<and> running s \<and> process s = Some p \<and> \<not> closed p \<longrightarrow>
        read_input_unix_step R (InBytes raw) s
          = (True, s\<lparr>process := Some (p\<lparr>sent := sent p @ [data]\<rparr>)\<rparr>))"
proof -
  have m: "str_in (27 # u ''[M'') data \<longleftrightarrow> (\<exists>pre post. data = pre @ 27 # u ''[M'' @ post)"
    and l: "str_in (27 # u ''[<'') data \<longleftrightarrow> (\<exists>pre post. data = pre @ 27 # u ''[<'' @ post)"
    by (simp_all add: str_in_iff)
  show ?thesis
    unfolding m [symmetric] l [symmetric]
    using assms by (simp add: read_input_unix_step_def Let_def child_send_def)
qed

lemma mouse_chunk_decoded:
  "decode_utf8_ignore rt0 (u ''a'' @ 27 # u ''[M !!'' @ u ''b'') = u ''a'' @ 27 # u ''[M !!'' @ u ''b''"
  by (simp add: rt0_def u_def)

text \<open>
  The claim as stated fails: the characters \<open>a\<close> and \<open>b\<close> around a mouse report in the
  same chunk belong to no mouse sequence, and the child receives nothing.
\<close>

theorem input_bytes_beside_mouse_dropped_counterexample:
  "read_input_unix_step rt0 (InBytes (u ''a'' @ 27 # u ''[M !!'' @ u ''b'')) started0
     = (True, started0)
   \<and> process started0 = Some \<lparr>cmdline = [u ''claude''], sent = [], winsize = (28, 100),
        closed = False\<rparr>"
  by (simp add: read_input_unix_step_def Let_def mouse_chunk_decoded)
     (simp add: u_def started0_def)

theorem input_chunk_dropped_or_forwarded_witness:
  "u ''ls'' \<noteq> [] \<and> running started0
   \<and> read_input_unix_step rt0 (InBytes (u ''ls'')) started0
     = (True, started0\<lparr>process := Some \<lparr>cmdline = [u ''claude''], sent = [u ''ls''],
          winsize = (28, 100), closed = False\<rparr>\<rparr>)
   \<and> read_input_unix_step rt0 (InBytes (u ''a'' @ 27 # u ''[M !!'' @ u ''b'')) started0
     = (True, started0)"
proof -
  have ne: "u ''ls'' \<noteq> []" "u ''a'' @ 27 # u ''[M !!'' @ u ''b'' \<noteq> []"
    by (simp_all add: u_def)
  have d: "u ''ls'' = decode_utf8_ignore rt0 (u ''ls'')"
    by (simp add: rt0_def u_def)
  have no: "\<not> (\<exists>pre post. u ''ls'' = pre @ 27 # u ''[M'' @ post)"
      "\<not> (\<exists>pre post. u ''ls'' = pre @ 27 # u ''[<'' @ post)"
    using str_in_iff [of "27 # u ''[M''" "u ''ls''"] str_in_iff [of "27 # u ''[<''" "u ''ls''"]
    by (simp_all add: u_def)
  have yes: "\<exists>pre post. u ''a'' @ 27 # u ''[M !!'' @ u ''b'' = pre @ 27 # u ''[M'' @ post"
    using str_in_iff [of "27 # u ''[M''" "u ''a'' @ 27 # u ''[M !!'' @ u ''b''"]
    by (simp add: u_def)
  have st: "running started0" "process started0 = Some \<lparr>cmdline = [u ''claude''], sent = [],
      winsize = (28, 100), closed = False\<rparr>"
    by (simp_all add: started0_def)
  from input_chunk_dropped_or_forwarded [OF ne(1) d, of started0
      "\<lparr>cmdline = [u ''claude''], sent = [], winsize = (28, 100), closed = False\<rparr>"] no st
  have 1: "read_input_unix_step rt0 (InBytes (u ''ls'')) started0
     = (True, started0\<lparr>process := Some \<lparr>cmdline = [u ''claude''], sent = [u ''ls''],
          winsize = (28, 100), closed = False\<rparr>\<rparr>)"
    by simp
  from input_chunk_dropped_or_forwarded [OF ne(2) mouse_chunk_decoded [symmetric], of started0] yes
  have 2: "read_input_unix_step rt0 (InBytes (u ''a'' @ 27 # u ''[M !!'' @ u ''b'')) started0
     = (True, started0)"
    by blast
  from ne st 1 2 show ?thesis by simp
qed

section \<open>Stripping control sequences\<close>

lemma rmatch_star_cls:
  "rmatch W (Star (Cls P)) (b, s) =
     (case s of [] \<Rightarrow> [(b, [])]
      | c # cs \<Rightarrow> if P c then rmatch W (Star (Cls P)) (Some c, cs) @ [(b, s)] else [(b, s)])"
  by (cases s) auto

declare rmatch.simps(5) [simp del]

lemma rmatch_star_then_cls:
  assumes "\<And>x. P x \<Longrightarrow> \<not> L x"
  shows "concat (map (rmatch W (Cls L)) (rmatch W (Star (Cls P)) (b, s))) = seq_end P L s"
proof (induction s arbitrary: b)
  case Nil
  show ?case by (subst rmatch_star_cls) (simp add: seq_end_def)
next
  case (Cons c cs)
  show ?case
  proof (cases "P c")
    case True
    have star: "rmatch W (Star (Cls P)) (b, c # cs)
        = rmatch W (Star (Cls P)) (Some c, cs) @ [(b, c # cs)]"
      using True by (subst rmatch_star_cls) simp
    have here: "rmatch W (Cls L) (b, c # cs) = []"
      using assms [OF True] by simp
    have "concat (map (rmatch W (Cls L)) (rmatch W (Star (Cls P)) (b, c # cs)))
        = concat (map (rmatch W (Cls L)) (rmatch W (Star (Cls P)) (Some c, cs)))"
      unfolding star map_append concat_append using here by simp
    also have "\<dots> = seq_end P L cs"
      by (rule Cons.IH)
    also have "\<dots> = seq_end P L (c # cs)"
      using True by (simp add: seq_end_def)
    finally show ?thesis .
  next
    case False
    have star: "rmatch W (Star (Cls P)) (b, c # cs) = [(b, c # cs)]"
      using False by (subst rmatch_star_cls) simp
    show ?thesis
      unfolding star using False by (simp add: seq_end_def)
  qed
qed

lemma rmatch_csi:
  "rmatch W csi_re (b, s) =
     (case s of
        x # y # rest \<Rightarrow>
          if x = 27 \<and> y = 91 then seq_end (\<lambda>c. ascii_digit c \<or> c = 59) ascii_letter rest else []
      | _ \<Rightarrow> [])"
proof -
  have d: "\<And>x. ascii_digit x \<or> x = 59 \<Longrightarrow> \<not> ascii_letter x"
    by (auto simp: ascii_digit_def ascii_letter_def)
  show ?thesis
    unfolding csi_re_def
    by (simp add: lit_def rmatch_star_then_cls [OF d] split: list.splits)
qed

lemma rmatch_osc:
  "rmatch W osc_re (b, s) =
     (case s of
        x # y # rest \<Rightarrow>
          if x = 27 \<and> y = 93 then seq_end (\<lambda>c. c \<noteq> 7) (\<lambda>c. c = 7) rest else []
      | _ \<Rightarrow> [])"
  unfolding osc_re_def
  by (simp add: lit_def rmatch_star_then_cls split: list.splits)

lemma rmatch_suffix: "q \<in> set (rmatch W r p) \<Longrightarrow> suffix (snd q) (snd p)"
proof (induction W r p arbitrary: q rule: rmatch.induct)
  case (1 W p)
  then show ?case by simp
next
  case (2 W P p)
  then have "\<exists>c. snd p = c # snd q"
    by (cases "snd p") (auto split: if_splits)
  then show ?case by (auto simp: suffix_Cons)
next
  case (3 W r1 r2 p)
  from "3.prems" obtain q1 where q1: "q1 \<in> set (rmatch W r1 p)" "q \<in> set (rmatch W r2 q1)"
    by auto
  from "3.IH"(1) [OF q1(1)] "3.IH"(2) [OF q1] show ?case
    by (rule suffix_order.trans [rotated])
next
  case (4 W r1 r2 p)
  from "4.prems" have "q \<in> set (rmatch W r1 p) \<or> q \<in> set (rmatch W r2 p)"
    by simp
  then show ?case
    using "4.IH" by blast
next
  case (5 W r p)
  from "5.prems" consider "q = p"
    | q1 where "q1 \<in> set (rmatch W r p)" "length (snd q1) < length (snd p)"
        "q \<in> set (rmatch W (Star r) q1)"
    by (subst (asm) rmatch.simps) auto
  then show ?case
  proof cases
    case 1
    then show ?thesis by simp
  next
    case 2
    have "q1 \<in> set (filter (\<lambda>q. length (snd q) < length (snd p)) (rmatch W r p))"
      using 2 by simp
    from "5.IH"(2) [OF this 2(3)] "5.IH"(1) [OF 2(1)] show ?thesis
      by (rule suffix_order.trans)
  qed
next
  case (6 W p)
  then show ?case by (auto split: if_splits)
next
  case (7 W p)
  then show ?case by (auto split: if_splits)
qed

lemma delete_from_context_free:
  assumes "\<And>b s. rmatch W r (b, s) = rmatch W r (None, s)"
  shows "re_delete_from W r b s = re_delete_from W r None s"
proof (induction "length s" arbitrary: s b rule: less_induct)
  case less
  have tl: "re_delete_from W r (Some c) cs = re_delete_from W r None cs" if "s = c # cs" for c cs
    using less [of cs "Some c"] that by simp
  show ?case
    by (subst re_delete_from.simps, subst (2) re_delete_from.simps)
       (auto simp: assms [of b s] tl split: list.splits)
qed

lemma delete_subset: "set (re_delete_from W r b s) \<subseteq> set s"
proof (induction "length s" arbitrary: s b rule: less_induct)
  case less
  show ?case
  proof (cases "rmatch W r (b, s)")
    case Nil
    show ?thesis
    proof (cases s)
      case Nil
      then show ?thesis by (subst re_delete_from.simps) (simp split: list.splits)
    next
      case (Cons c cs)
      then show ?thesis
        using less [of cs "Some c"] \<open>rmatch W r (b, s) = []\<close>
        by (subst re_delete_from.simps) auto
    qed
  next
    case (Cons q qs)
    then have "suffix (snd q) s"
      using rmatch_suffix [of q W r "(b, s)"] by simp
    then have sub: "set (snd q) \<subseteq> set s"
      by (rule set_mono_suffix)
    show ?thesis
    proof (cases s)
      case Nil
      then show ?thesis by (subst re_delete_from.simps) (simp split: list.splits)
    next
      case c: (Cons c cs)
      then show ?thesis
        using less [of "snd q" "fst q"] less [of cs "Some c"] sub Cons
        by (subst re_delete_from.simps) auto
    qed
  qed
qed

lemma delete_Nil [simp]: "re_delete W r [] = []"
  unfolding re_delete_def by (subst re_delete_from.simps) (simp split: list.splits)

lemma delete_Cons_nomatch:
  assumes "\<And>b s. rmatch W r (b, s) = rmatch W r (None, s)"
    and "rmatch W r (None, c # cs) = []"
  shows "re_delete W r (c # cs) = c # re_delete W r cs"
  unfolding re_delete_def
  by (subst re_delete_from.simps)
     (simp add: assms(2) delete_from_context_free [OF assms(1), of "Some c"])

lemma delete_match:
  assumes "\<And>b s. rmatch W r (b, s) = rmatch W r (None, s)"
    and "rmatch W r (None, s) = (b', rest) # qs"
  shows "re_delete W r s = re_delete W r rest"
proof (cases "length rest < length s")
  case True
  then show ?thesis
    unfolding re_delete_def
    by (subst re_delete_from.simps)
       (simp add: assms(2) delete_from_context_free [OF assms(1), of b'])
next
  case False
  have "suffix rest s"
    using rmatch_suffix [of "(b', rest)" W r "(None, s)"] assms(2) by simp
  with False have "rest = s"
    by (auto simp: suffix_def)
  then show ?thesis by simp
qed

lemma delete_skip:
  assumes "\<And>b s. rmatch W r (b, s) = rmatch W r (None, s)"
    and "\<And>c cs. c \<noteq> 27 \<Longrightarrow> rmatch W r (None, c # cs) = []"
    and "27 \<notin> set t"
  shows "re_delete W r (t @ rest) = t @ re_delete W r rest"
  using assms(3)
proof (induction t)
  case Nil
  show ?case by simp
next
  case (Cons c t)
  then have "rmatch W r (None, c # t @ rest) = []"
    using assms(2) [of c] by simp
  from delete_Cons_nomatch [OF assms(1) this] Cons show ?case
    by simp
qed

lemma csi_context_free: "rmatch W csi_re (b, s) = rmatch W csi_re (None, s)"
  by (simp add: rmatch_csi)

lemma osc_context_free: "rmatch W osc_re (b, s) = rmatch W osc_re (None, s)"
  by (simp add: rmatch_osc)

lemma csi_needs_ESC: "c \<noteq> 27 \<Longrightarrow> rmatch W csi_re (None, c # cs) = []"
  by (simp add: rmatch_csi split: list.splits)

lemma osc_needs_ESC: "c \<noteq> 27 \<Longrightarrow> rmatch W osc_re (None, c # cs) = []"
  by (simp add: rmatch_osc split: list.splits)

lemma seq_end_exact:
  assumes "list_all P xs" and "\<not> P f" and "L f"
  shows "seq_end P L (xs @ f # rest) = [(Some f, rest)]"
proof -
  have "dropWhile P (xs @ f # rest) = f # rest"
    using assms(1,2) by (induction xs) auto
  then show ?thesis
    using assms(3) by (simp add: seq_end_def)
qed

lemma seq_end_barrier:
  assumes "\<not> P d" and "\<not> L d"
  shows "seq_end P L (xs @ d # rest) = map (\<lambda>q. (fst q, snd q @ d # rest)) (seq_end P L xs)"
  using assms by (induction xs) (auto simp: seq_end_def)

lemma seq_end_shorter: "q \<in> set (seq_end P L s) \<Longrightarrow> length (snd q) < length s"
proof -
  assume q: "q \<in> set (seq_end P L s)"
  then obtain c where "dropWhile P s = c # snd q"
    by (cases "dropWhile P s") (auto simp: seq_end_def split: if_splits)
  then have "length (snd q) < length (dropWhile P s)"
    by simp
  also have "\<dots> \<le> length s"
    by (rule length_dropWhile_le)
  finally show ?thesis .
qed

lemma csi_piece_deleted:
  assumes "list_all (\<lambda>c. ascii_digit c \<or> c = 59) params" and "ascii_letter final"
  shows "re_delete W csi_re (27 # 91 # params @ final # rest) = re_delete W csi_re rest"
proof -
  have "\<not> (ascii_digit final \<or> final = 59)"
    using assms(2) by (auto simp: ascii_digit_def ascii_letter_def)
  with assms
  have "rmatch W csi_re (None, 27 # 91 # params @ final # rest) = [(Some final, rest)]"
    using seq_end_exact [where P = "\<lambda>c. ascii_digit c \<or> c = 59" and L = ascii_letter
        and xs = params and f = final and rest = rest]
    by (simp add: rmatch_csi)
  then show ?thesis
    by (rule delete_match [OF csi_context_free])
qed

lemma osc_piece_deleted:
  assumes "7 \<notin> set body"
  shows "re_delete W osc_re (27 # 93 # body @ 7 # rest) = re_delete W osc_re rest"
proof -
  have "list_all (\<lambda>c. c \<noteq> 7) body"
    using assms by (auto simp: list_all_iff)
  then have "rmatch W osc_re (None, 27 # 93 # body @ 7 # rest) = [(Some 7, rest)]"
    using seq_end_exact [where P = "\<lambda>c. c \<noteq> 7" and L = "\<lambda>c. c = 7" and xs = body
        and f = 7 and rest = rest]
    by (simp add: rmatch_osc)
  then show ?thesis
    by (rule delete_match [OF osc_context_free])
qed

lemma rmatch_csi_barrier:
  "rmatch W csi_re (None, body @ 7 # rest)
     = map (\<lambda>q. (fst q, snd q @ 7 # rest)) (rmatch W csi_re (None, body))"
proof -
  have n: "\<not> (ascii_digit 7 \<or> (7::nat) = 59)" "\<not> ascii_letter 7"
    by (simp_all add: ascii_digit_def ascii_letter_def)
  show ?thesis
  proof (cases body)
    case Nil
    then show ?thesis by (simp add: rmatch_csi split: list.splits)
  next
    case (Cons x xs)
    then show ?thesis
      using n seq_end_barrier [where P = "\<lambda>c. ascii_digit c \<or> c = 59" and L = ascii_letter
          and d = 7 and rest = rest]
      by (cases xs) (simp_all add: rmatch_csi)
  qed
qed

lemma rmatch_csi_shorter: "q \<in> set (rmatch W csi_re (b, s)) \<Longrightarrow> length (snd q) < length s"
  by (auto simp: rmatch_csi split: list.splits if_splits dest!: seq_end_shorter)

lemma csi_barrier:
  "re_delete W csi_re (body @ 7 # rest) = re_delete W csi_re body @ 7 # re_delete W csi_re rest"
proof (induction "length body" arbitrary: body rule: less_induct)
  case less
  show ?case
  proof (cases "rmatch W csi_re (None, body)")
    case Nil
    then have no: "rmatch W csi_re (None, body @ 7 # rest) = []"
      by (simp add: rmatch_csi_barrier)
    show ?thesis
    proof (cases body)
      case Nil
      then show ?thesis
        using delete_Cons_nomatch [OF csi_context_free, of W 7 rest] no by simp
    next
      case (Cons c cs)
      then show ?thesis
        using delete_Cons_nomatch [OF csi_context_free, of W c "cs @ 7 # rest"]
          delete_Cons_nomatch [OF csi_context_free, of W c cs] no \<open>rmatch W csi_re (None, body) = []\<close>
          less [of cs]
        by simp
    qed
  next
    case (Cons q qs)
    obtain b' r where q: "q = (b', r)" by (cases q)
    have short: "length r < length body"
      using rmatch_csi_shorter [of q W None body] Cons q by simp
    have ext: "rmatch W csi_re (None, body @ 7 # rest)
        = (b', r @ 7 # rest) # map (\<lambda>q. (fst q, snd q @ 7 # rest)) qs"
      using Cons q by (simp add: rmatch_csi_barrier)
    have "re_delete W csi_re (body @ 7 # rest) = re_delete W csi_re (r @ 7 # rest)"
      using ext by (rule delete_match [OF csi_context_free])
    also have "\<dots> = re_delete W csi_re r @ 7 # re_delete W csi_re rest"
      using short by (rule less)
    also have "re_delete W csi_re r = re_delete W csi_re body"
      using Cons q by (intro delete_match [OF csi_context_free, symmetric]) simp
    finally show ?thesis .
  qed
qed

lemma delete_keeps_no_BEL: "7 \<notin> set body \<Longrightarrow> 7 \<notin> set (re_delete W r body)"
  using delete_subset [of W r None body] by (auto simp: re_delete_def)

lemma strip_piece:
  assumes "piece_ok p"
  shows "strip_ansi R (render_piece p @ rest) = plain_of p @ strip_ansi R rest"
proof (cases p)
  case (Plain t)
  then have t: "27 \<notin> set t"
    using assms by simp
  show ?thesis
    unfolding strip_ansi_def Plain
    by (simp add: delete_skip [OF csi_context_free csi_needs_ESC t]
        delete_skip [OF osc_context_free osc_needs_ESC t])
next
  case (CSI params final)
  then show ?thesis
    using assms csi_piece_deleted [of params final "isword R" rest]
    by (simp add: strip_ansi_def)
next
  case (OSC body)
  then have b: "7 \<notin> set (re_delete (isword R) csi_re body)"
    using assms by (simp add: delete_keeps_no_BEL)
  have "re_delete (isword R) csi_re (27 # 93 # body @ 7 # rest)
      = 27 # 93 # re_delete (isword R) csi_re body @ 7 # re_delete (isword R) csi_re rest"
    using delete_Cons_nomatch [OF csi_context_free, of "isword R" 27 "93 # body @ 7 # rest"]
      delete_Cons_nomatch [OF csi_context_free, of "isword R" 93 "body @ 7 # rest"]
    by (simp add: rmatch_csi csi_barrier split: list.splits)
  then show ?thesis
    unfolding strip_ansi_def OSC using osc_piece_deleted [OF b] by simp
qed

lemma strip_render:
  "list_all piece_ok ps \<Longrightarrow> strip_ansi R (render ps) = plain_text ps"
proof (induction ps)
  case Nil
  show ?case by (simp add: render_def plain_text_def strip_ansi_def)
next
  case (Cons p ps)
  then show ?case
    using strip_piece [of p R "render ps"] by (simp add: render_def plain_text_def)
qed

lemma strip_plain: "27 \<notin> set t \<Longrightarrow> strip_ansi R t = t"
  using delete_skip [OF csi_context_free csi_needs_ESC, of t _ "[]"]
    delete_skip [OF osc_context_free osc_needs_ESC, of t _ "[]"]
  by (simp add: strip_ansi_def)

lemma plain_text_no_ESC: "list_all piece_ok ps \<Longrightarrow> 27 \<notin> set (plain_text ps)"
proof (induction ps)
  case Nil
  show ?case by (simp add: plain_text_def)
next
  case (Cons p ps)
  then show ?case by (cases p) (auto simp: plain_text_def)
qed

text \<open>
  C4 (as amended). For every text put together, in any order and number, from plain text
  without \<open>ESC\<close>, CSI sequences whose parameters are digits and semicolons, and OSC
  sequences ended by \<open>BEL\<close>, the stripping of \<open>get_screen_state\<close> yields exactly the plain
  text, stripping it again changes nothing, and \<open>get_screen_state\<close> returns the last 50
  lines of the plain text.
\<close>

theorem strip_ansi_yields_plain_text:
  assumes "list_all piece_ok ps"
  shows "strip_ansi R (render ps) = plain_text ps
     \<and> strip_ansi R (strip_ansi R (render ps)) = strip_ansi R (render ps)
     \<and> (screen_buffer s = render ps \<longrightarrow>
          get_screen_state R s =
            join [10] (drop (length (split_lines (plain_text ps)) - 50)
                         (split_lines (plain_text ps))))"
proof -
  have 1: "strip_ansi R (render ps) = plain_text ps"
    using assms by (rule strip_render)
  have "strip_ansi R (plain_text ps) = plain_text ps"
    using assms by (intro strip_plain plain_text_no_ESC)
  with 1 show ?thesis
    by (simp add: get_screen_state_def Let_def)
qed

text \<open>
  The claim as stated fails: the CSI sequence \<open>ESC[?25h\<close> (show cursor) is not removed,
  and on \<open>ESC ESC[m [m\<close>, a CSI sequence between the plain texts \<open>ESC\<close> and \<open>[m\<close>,
  stripping twice differs from stripping once.
\<close>

theorem strip_ansi_counterexample:
  "strip_ansi rt0 (27 # u ''[?25h'' @ u ''hi'') = 27 # u ''[?25h'' @ u ''hi''
   \<and> strip_ansi rt0 (strip_ansi rt0 ([27] @ 27 # u ''[m'' @ u ''[m''))
       \<noteq> strip_ansi rt0 ([27] @ 27 # u ''[m'' @ u ''[m'')"
  by (simp add: strip_ansi_def re_delete_def re_delete_from.simps rmatch.simps csi_re_def
      osc_re_def lit_def u_def ascii_digit_def ascii_letter_def)

theorem strip_ansi_yields_plain_text_witness:
  "list_all piece_ok pieces0
   \<and> render pieces0 = u ''ab'' @ 27 # u ''[1;32m'' @ u ''c'' @ 27 # u '']0;t'' @ 7 # 27 # u ''[H''
   \<and> strip_ansi rt0 (u ''ab'' @ 27 # u ''[1;32m'' @ u ''c'' @ 27 # u '']0;t'' @ 7 # 27 # u ''[H'')
       = u ''abc''"
proof -
  have ok: "list_all piece_ok pieces0"
    by (simp add: pieces0_def u_def ascii_digit_def ascii_letter_def)
  have r: "render pieces0
      = u ''ab'' @ 27 # u ''[1;32m'' @ u ''c'' @ 27 # u '']0;t'' @ 7 # 27 # u ''[H''"
    by (simp add: pieces0_def render_def u_def)
  have p: "plain_text pieces0 = u ''abc''"
    by (simp add: pieces0_def plain_text_def u_def)
  from strip_ansi_yields_plain_text [OF ok, of rt0] ok r p show ?thesis
    by simp
qed

section \<open>Prompt detection\<close>

lemma search_from_at:
  "rmatch W r (before b pre, s) \<noteq> [] \<Longrightarrow> re_search_from W r b (pre @ s)"
proof (induction pre arbitrary: b)
  case Nil
  then show ?case by (cases s) (simp_all add: before_def)
next
  case (Cons p ps)
  have "before (Some p) ps = before b (p # ps)"
    by (simp add: before_def)
  with Cons.prems have "rmatch W r (before (Some p) ps, s) \<noteq> []"
    by simp
  then have "re_search_from W r (Some p) (ps @ s)"
    by (rule Cons.IH)
  then show ?case by simp
qed

lemma search_at:
  "rmatch W r (before None pre, s) \<noteq> [] \<Longrightarrow> re_search W r (pre @ s)"
  unfolding re_search_def by (rule search_from_at)

lemma mem_Seq:
  "q1 \<in> set (rmatch W r1 p) \<Longrightarrow> q \<in> set (rmatch W r2 q1) \<Longrightarrow> q \<in> set (rmatch W (Seq r1 r2) p)"
  by auto

lemma mem_lit: "(Some c, rest) \<in> set (rmatch W (lit c) (b, c # rest))"
  by (simp add: lit_def)

lemma mem_star_cls:
  "list_all P xs \<Longrightarrow> (before b xs, rest) \<in> set (rmatch W (Star (Cls P)) (b, xs @ rest))"
proof (induction xs arbitrary: b)
  case Nil
  show ?case by (subst rmatch_star_cls) (simp add: before_def split: list.splits)
next
  case (Cons x xs)
  then have "(before (Some x) xs, rest) \<in> set (rmatch W (Star (Cls P)) (Some x, xs @ rest))"
    by simp
  moreover have "before (Some x) xs = before b (x # xs)"
    by (simp add: before_def)
  ultimately show ?case
    using Cons.prems by (subst rmatch_star_cls) simp
qed

lemma mem_plus_cls:
  assumes "xs \<noteq> []" and "list_all P xs"
  shows "(Some (last xs), rest) \<in> set (rmatch W (plus (Cls P)) (b, xs @ rest))"
proof -
  obtain x xs' where xs: "xs = x # xs'"
    using assms(1) by (cases xs) auto
  have 1: "(Some x, xs' @ rest) \<in> set (rmatch W (Cls P) (b, xs @ rest))"
    using assms(2) xs by simp
  have 2: "(before (Some x) xs', rest) \<in> set (rmatch W (Star (Cls P)) (Some x, xs' @ rest))"
    using assms(2) xs by (intro mem_star_cls) simp
  have "before (Some x) xs' = Some (last xs)"
    using xs by (simp add: before_def)
  with mem_Seq [OF 1 2] show ?thesis
    by (simp add: plus_def)
qed

lemma mem_str: "(before b w, rest) \<in> set (rmatch W (str_re w) (b, w @ rest))"
proof (induction w arbitrary: b)
  case Nil
  show ?case by (simp add: before_def)
next
  case (Cons c w)
  have "before (Some c) w = before b (c # w)"
    by (simp add: before_def)
  with mem_Seq [OF mem_lit [of c "w @ rest" W b] Cons [of "Some c"]] show ?case
    by simp
qed

lemma mem_istr:
  "list_all (\<lambda>x. x < 128) v \<Longrightarrow> map ascii_lower v = w \<Longrightarrow>
     (before b v, rest) \<in> set (rmatch W (istr_re R w) (b, v @ rest))"
proof (induction v arbitrary: b w)
  case Nil
  then show ?case by (auto simp: before_def)
next
  case (Cons x v)
  then obtain w' where w: "w = ascii_lower x # w'" "map ascii_lower v = w'"
    by auto
  have 1: "(Some x, v @ rest) \<in> set (rmatch W (ilit R (ascii_lower x)) (b, (x # v) @ rest))"
    using Cons.prems(1) by (simp add: ilit_def)
  have 2: "(before (Some x) v, rest) \<in> set (rmatch W (istr_re R w') (Some x, v @ rest))"
    using Cons.prems(1) w(2) by (intro Cons.IH) simp_all
  have "before (Some x) v = before b (x # v)"
    by (simp add: before_def)
  with mem_Seq [OF 1 2] w show ?case
    by simp
qed

lemma mem_alts:
  "r \<in> set rs \<Longrightarrow> q \<in> set (rmatch W r p) \<Longrightarrow> q \<in> set (rmatch W (alts rs) p)"
  by (induction rs rule: alts.induct) auto

lemma yes_no_matches:
  assumes "w \<in> {u ''y/n'', u ''Y/N'', u ''yes/no'', u ''Yes/No''}"
  shows "rmatch W yes_no_re (b, 91 # w @ 93 # rest) \<noteq> []"
proof -
  let ?alt = "alts [str_re (u ''y/n''), str_re (u ''Y/N''), str_re (u ''yes/no''),
                 str_re (u ''Yes/No'')]"
  have 1: "(Some 91, w @ 93 # rest) \<in> set (rmatch W (lit 91) (b, 91 # w @ 93 # rest))"
    by (rule mem_lit)
  have "str_re w \<in> set [str_re (u ''y/n''), str_re (u ''Y/N''), str_re (u ''yes/no''),
                 str_re (u ''Yes/No'')]"
    using assms by auto
  from mem_alts [OF this mem_str]
  have 2: "(before (Some 91) w, 93 # rest) \<in> set (rmatch W ?alt (Some 91, w @ 93 # rest))" .
  have 3: "(Some 93, rest) \<in> set (rmatch W (lit 93) (before (Some 91) w, 93 # rest))"
    by (rule mem_lit)
  have "(Some 93, rest) \<in> set (rmatch W yes_no_re (b, 91 # w @ 93 # rest))"
    unfolding yes_no_re_def by (rule mem_Seq [OF 1 mem_Seq [OF 2 3]])
  then show ?thesis by auto
qed

lemma numbered_matches:
  assumes "b = None \<or> b = Some 10"
    and "list_all (isspace R) ws"
    and "ds \<noteq> []" and "list_all (isdecimal R) ds"
    and "ws2 \<noteq> []" and "list_all (isspace R) ws2"
    and "isword R c"
  shows "rmatch W (numbered_re R) (b, ws @ ds @ 46 # ws2 @ c # rest) \<noteq> []"
proof -
  let ?s = "ws @ ds @ 46 # ws2 @ c # rest"
  have 0: "(b, ?s) \<in> set (rmatch W Bol (b, ?s))"
    using assms(1) by auto
  have 1: "(before b ws, ds @ 46 # ws2 @ c # rest)
      \<in> set (rmatch W (Star (Cls (isspace R))) (b, ?s))"
    using assms(2) by (rule mem_star_cls)
  have 2: "(Some (last ds), 46 # ws2 @ c # rest)
      \<in> set (rmatch W (plus (Cls (isdecimal R))) (before b ws, ds @ 46 # ws2 @ c # rest))"
    using assms(3,4) by (rule mem_plus_cls)
  have 3: "(Some 46, ws2 @ c # rest)
      \<in> set (rmatch W (lit 46) (Some (last ds), 46 # ws2 @ c # rest))"
    by (rule mem_lit)
  have 4: "(Some (last ws2), c # rest)
      \<in> set (rmatch W (plus (Cls (isspace R))) (Some 46, ws2 @ c # rest))"
    using assms(5,6) by (rule mem_plus_cls)
  have 5: "(Some (last [c]), rest)
      \<in> set (rmatch W (plus (Cls (isword R))) (Some (last ws2), [c] @ rest))"
    using assms(7) by (intro mem_plus_cls) simp_all
  then have 5: "(Some c, rest)
      \<in> set (rmatch W (plus (Cls (isword R))) (Some (last ws2), c # rest))"
    by simp
  have "(Some c, rest) \<in> set (rmatch W (numbered_re R) (b, ?s))"
    unfolding numbered_re_def
    by (rule mem_Seq [OF 0 mem_Seq [OF 1 mem_Seq [OF 2 mem_Seq [OF 3 mem_Seq [OF 4 5]]]]])
  then show ?thesis by auto
qed

lemma decision_words_shape:
  "w \<in> set decision_words \<Longrightarrow> w \<noteq> [] \<and> list_all (\<lambda>c. 97 \<le> c \<and> c \<le> 122) w"
  by (auto simp: decision_words_def u_def)

lemma lower_letter_is_word:
  "x < 128 \<Longrightarrow> 97 \<le> ascii_lower x \<and> ascii_lower x \<le> 122 \<Longrightarrow> isword R x"
  by (auto simp: isword_def ascii_lower_def ascii_letter_def split: if_splits)

lemma decision_matches:
  assumes "list_all (\<lambda>x. x < 128) v" and "map ascii_lower v \<in> set decision_words"
    and "case b of None \<Rightarrow> True | Some c \<Rightarrow> \<not> isword R c"
    and "rest = [] \<or> \<not> isword R (hd rest)"
  shows "rmatch (isword R) (decision_re R) (b, v @ rest) \<noteq> []"
proof -
  let ?W = "isword R"
  from decision_words_shape [OF assms(2)]
  have ne: "v \<noteq> []" and low: "list_all (\<lambda>c. 97 \<le> c \<and> c \<le> 122) (map ascii_lower v)"
    by auto
  have word: "isword R x" if "x \<in> set v" for x
    using that assms(1) low by (intro lower_letter_is_word) (auto simp: list_all_iff)
  obtain x v' where v: "v = x # v'"
    using ne by (cases v) auto
  have "isword R x"
    using word v by simp
  then have "at_boundary ?W (b, v @ rest)"
    using assms(3) v by (auto simp: at_boundary_def split: option.splits)
  then have 0: "(b, v @ rest) \<in> set (rmatch ?W WordB (b, v @ rest))"
    by simp
  have "istr_re R (map ascii_lower v) \<in> set (map (istr_re R) decision_words)"
    using assms(2) by simp
  from mem_alts [OF this mem_istr [OF assms(1) refl]]
  have 1: "(before b v, rest)
      \<in> set (rmatch ?W (alts (map (istr_re R) decision_words)) (b, v @ rest))" .
  have b: "before b v = Some (last v)"
    using ne by (simp add: before_def)
  have "isword R (last v)"
    using word ne by simp
  then have "at_boundary ?W (Some (last v), rest)"
    using assms(4) by (cases rest) (auto simp: at_boundary_def)
  then have 2: "(before b v, rest) \<in> set (rmatch ?W WordB (before b v, rest))"
    using b by simp
  have "(before b v, rest) \<in> set (rmatch ?W (decision_re R) (b, v @ rest))"
    unfolding decision_re_def by (rule mem_Seq [OF 0 mem_Seq [OF 1 2]])
  then show ?thesis by auto
qed

lemma glyph_in: "str_in [c] s \<longleftrightarrow> c \<in> set s"
  by (induction s) auto

lemmas eval_re = menu_prompt_in_def re_search_def rmatch.simps yes_no_re_def numbered_re_def
  decision_re_def decision_words_def lit_def ilit_def plus_def u_def at_boundary_def
  isword_def isspace_def isdecimal_def ascii_letter_def ascii_digit_def ascii_lower_def

lemma example_marker: "menu_prompt_in R (10095 # u '' 1. Yes'' @ 10 # u ''  2. No'')"
  by (simp add: menu_prompt_in_def u_def)

lemma example_yes_no: "menu_prompt_in R (u ''Proceed? [y/n]'')"
proof -
  have "re_search (isword R) yes_no_re (u ''Proceed? '' @ 91 # u ''y/n'' @ 93 # [])"
    by (intro search_at yes_no_matches) simp
  then show ?thesis
    by (simp add: menu_prompt_in_def u_def)
qed

lemma example_listening_1: "\<not> re_search (isword R) yes_no_re (u ''Listening for input...'')"
  by (simp add: eval_re)

lemma example_listening_2: "\<not> re_search (isword R) (numbered_re R) (u ''Listening for input...'')"
  by (simp add: eval_re)

lemma example_listening: "\<not> menu_prompt_in R (u ''Listening for input...'')"
  using example_listening_1 [of R] example_listening_2 [of R]
  by (simp add: menu_prompt_in_def) (simp add: u_def)

text \<open>
  C9. \<open>has_menu_prompt\<close> applies to the screen text a classifier that is true exactly if
  the marker U+276F occurs, or the yes/no pattern is found, or both the numbered-list
  pattern and a decision word are found. So it is true whenever the marker occurs
  anywhere; whenever one of \<open>[y/n]\<close>, \<open>[Y/N]\<close>, \<open>[yes/no]\<close>, \<open>[Yes/No]\<close> occurs anywhere;
  and whenever some line starts with optional white space, digits, a dot, white space and
  a word character while one of allow, deny, approve, reject, permission, permit, grant,
  refuse occurs in any ASCII casing as a whole word. It is true on the two prompts of the
  specification and false on \<open>Listening for input...\<close>.
\<close>

theorem has_menu_prompt_detects:
  "has_menu_prompt R s = menu_prompt_in R (get_screen_state R s)
   \<and> (menu_prompt_in R t \<longleftrightarrow>
        10095 \<in> set t \<or> re_search (isword R) yes_no_re t
        \<or> re_search (isword R) (numbered_re R) t \<and> re_search (isword R) (decision_re R) t)
   \<and> (10095 \<in> set t \<longrightarrow> menu_prompt_in R t)
   \<and> (w \<in> {u ''y/n'', u ''Y/N'', u ''yes/no'', u ''Yes/No''} \<and> t = pre @ 91 # w @ 93 # post
        \<longrightarrow> menu_prompt_in R t)
   \<and> ((prior = [] \<or> last prior = 10) \<and> list_all (isspace R) ws
        \<and> ds \<noteq> [] \<and> list_all (isdecimal R) ds
        \<and> ws2 \<noteq> [] \<and> list_all (isspace R) ws2 \<and> isword R c
        \<and> t = prior @ ws @ ds @ 46 # ws2 @ c # rest
        \<and> list_all (\<lambda>x. x < 128) v \<and> map ascii_lower v \<in> set decision_words
        \<and> (bef = [] \<or> \<not> isword R (last bef)) \<and> (aft = [] \<or> \<not> isword R (hd aft))
        \<and> t = bef @ v @ aft
        \<longrightarrow> menu_prompt_in R t)
   \<and> menu_prompt_in R (10095 # u '' 1. Yes'' @ 10 # u ''  2. No'')
   \<and> menu_prompt_in R (u ''Proceed? [y/n]'')
   \<and> \<not> menu_prompt_in R (u ''Listening for input...'')"
proof -
  have iff: "menu_prompt_in R t \<longleftrightarrow>
        10095 \<in> set t \<or> re_search (isword R) yes_no_re t
        \<or> re_search (isword R) (numbered_re R) t \<and> re_search (isword R) (decision_re R) t"
    by (simp add: menu_prompt_in_def glyph_in)
  have yn: "menu_prompt_in R t"
    if "w \<in> {u ''y/n'', u ''Y/N'', u ''yes/no'', u ''Yes/No''}" "t = pre @ 91 # w @ 93 # post"
  proof -
    have "re_search (isword R) yes_no_re (pre @ 91 # w @ 93 # post)"
      using that(1) by (intro search_at yes_no_matches)
    then show ?thesis
      using that(2) iff by simp
  qed
  have num: "menu_prompt_in R t"
    if n: "prior = [] \<or> last prior = 10" "list_all (isspace R) ws"
        "ds \<noteq> []" "list_all (isdecimal R) ds"
        "ws2 \<noteq> []" "list_all (isspace R) ws2" "isword R c"
        "t = prior @ ws @ ds @ 46 # ws2 @ c # rest"
      and d: "list_all (\<lambda>x. x < 128) v" "map ascii_lower v \<in> set decision_words"
        "bef = [] \<or> \<not> isword R (last bef)" "aft = [] \<or> \<not> isword R (hd aft)"
        "t = bef @ v @ aft"
  proof -
    have "before None prior = None \<or> before None prior = Some 10"
      using n(1) by (auto simp: before_def)
    from numbered_matches [OF this n(2-7)]
    have 1: "re_search (isword R) (numbered_re R) t"
      unfolding n(8) by (rule search_at)
    have "case before None bef of None \<Rightarrow> True | Some c \<Rightarrow> \<not> isword R c"
      using d(3) by (auto simp: before_def)
    from decision_matches [OF d(1,2) this d(4)]
    have 2: "re_search (isword R) (decision_re R) t"
      unfolding d(5) by (rule search_at)
    from 1 2 iff show ?thesis by simp
  qed
  have 0: "has_menu_prompt R s = menu_prompt_in R (get_screen_state R s)"
    by (simp add: has_menu_prompt_def)
  have g: "10095 \<in> set t \<longrightarrow> menu_prompt_in R t"
    using iff by simp
  have a: "w \<in> {u ''y/n'', u ''Y/N'', u ''yes/no'', u ''Yes/No''} \<and> t = pre @ 91 # w @ 93 # post
        \<longrightarrow> menu_prompt_in R t"
    using yn by blast
  have b: "(prior = [] \<or> last prior = 10) \<and> list_all (isspace R) ws
        \<and> ds \<noteq> [] \<and> list_all (isdecimal R) ds
        \<and> ws2 \<noteq> [] \<and> list_all (isspace R) ws2 \<and> isword R c
        \<and> t = prior @ ws @ ds @ 46 # ws2 @ c # rest
        \<and> list_all (\<lambda>x. x < 128) v \<and> map ascii_lower v \<in> set decision_words
        \<and> (bef = [] \<or> \<not> isword R (last bef)) \<and> (aft = [] \<or> \<not> isword R (hd aft))
        \<and> t = bef @ v @ aft
        \<longrightarrow> menu_prompt_in R t"
    using num by blast
  from 0 iff g a b example_marker [of R] example_yes_no [of R] example_listening [of R]
  show ?thesis
    by (intro conjI)
qed

theorem has_menu_prompt_detects_witness:
  "menu_prompt_in rt0 (u ''1. Allow once'' @ 10 # u ''2. Deny'')
   \<and> menu_prompt_in rt0 (u ''Overwrite? [Yes/No] '')
   \<and> menu_prompt_in rt0 (u ''Pick: '' @ [10095] @ u '' one'')"
proof -
  note main = has_menu_prompt_detects [where R = rt0]
  note marker = main [THEN conjunct2, THEN conjunct2, THEN conjunct1]
  note yes_no = main [THEN conjunct2, THEN conjunct2, THEN conjunct2, THEN conjunct1]
  note numbered = main [THEN conjunct2, THEN conjunct2, THEN conjunct2, THEN conjunct2,
      THEN conjunct1]
  let ?t = "u ''1. Allow once'' @ 10 # u ''2. Deny''"
  have "([] = [] \<or> last [] = (10::nat)) \<and> list_all (isspace rt0) []
        \<and> u ''1'' \<noteq> [] \<and> list_all (isdecimal rt0) (u ''1'')
        \<and> u '' '' \<noteq> [] \<and> list_all (isspace rt0) (u '' '') \<and> isword rt0 65
        \<and> ?t = [] @ [] @ u ''1'' @ 46 # u '' '' @ 65 # (u ''llow once'' @ 10 # u ''2. Deny'')
        \<and> list_all (\<lambda>x. x < 128) (u ''Allow'')
        \<and> map ascii_lower (u ''Allow'') \<in> set decision_words
        \<and> (u ''1. '' = [] \<or> \<not> isword rt0 (last (u ''1. '')))
        \<and> (u '' once'' @ 10 # u ''2. Deny'' = []
             \<or> \<not> isword rt0 (hd (u '' once'' @ 10 # u ''2. Deny'')))
        \<and> ?t = u ''1. '' @ u ''Allow'' @ (u '' once'' @ 10 # u ''2. Deny'')"
    by (simp add: u_def decision_words_def ascii_lower_def isspace_def isdecimal_def
        isword_def ascii_digit_def ascii_letter_def)
  then have 1: "menu_prompt_in rt0 ?t"
    by (rule numbered [THEN mp])
  have "u ''Yes/No'' \<in> {u ''y/n'', u ''Y/N'', u ''yes/no'', u ''Yes/No''}
      \<and> u ''Overwrite? [Yes/No] '' = u ''Overwrite? '' @ 91 # u ''Yes/No'' @ 93 # u '' ''"
    by (simp add: u_def)
  then have 2: "menu_prompt_in rt0 (u ''Overwrite? [Yes/No] '')"
    by (rule yes_no [THEN mp])
  have "10095 \<in> set (u ''Pick: '' @ [10095] @ u '' one'')"
    by simp
  then have 3: "menu_prompt_in rt0 (u ''Pick: '' @ [10095] @ u '' one'')"
    by (rule marker [THEN mp])
  from 1 2 3 show ?thesis by simp
qed

end
